theory Spec2Isabelle
  imports Main "HOL-Library.Sublist"
begin

unbundle bit_operations_syntax

section \<open>Wildcard word-search service: index, protocol and servers\<close>

text \<open>
  A shallow embedding of \<^verbatim>\<open>index.py\<close>, \<^verbatim>\<open>server_threaded.py\<close> and
  \<^verbatim>\<open>server_basic.py\<close>. Python's \<^verbatim>\<open>str\<close> is modelled as \<^typ>\<open>string\<close>; the
  embedding covers ASCII text, the scope the service is specified for, where
  \<^verbatim>\<open>str.lower\<close> and \<^verbatim>\<open>str.upper\<close> change the 26 letters only and keep lengths:
  \<open>lower\<close> and \<open>upper\<close> below are these two functions on ASCII text. Outside ASCII
  \<^verbatim>\<open>str.lower\<close> is another function, and it can lengthen a string: the code point U+0130
  becomes the two code points U+0069 and U+0307. The constructor of the index therefore
  takes the lowering of the words as a parameter (\<open>WordIndex_with\<close>), and
  \<open>WordIndex_init\<close>, which the statements about ASCII text use, is its instance at
  \<open>lower\<close>.
  Python's unbounded integers are \<^typ>\<open>int\<close>; lengths, indices and counts, which are
  never negative, are \<^typ>\<open>nat\<close>.
\<close>

subsection \<open>Exceptions\<close>

datatype py_error = KeyError | IndexError | AssertionError | ReError

subsection \<open>The Bloom-like filter (\<^verbatim>\<open>_SimpleBloom\<close>)\<close>

text \<open>
  \<^verbatim>\<open>hash(s)\<close> is Python's built-in string hash, seeded per process: every function that
  hashes takes it as the parameter \<open>hsh\<close>.
\<close>

record SimpleBloom =
  b_bits :: int
  b_size :: int
  b_mask :: int

definition SimpleBloom_init :: "nat \<Rightarrow> SimpleBloom" where
  "SimpleBloom_init bits_power_of_two =
     (let sz = push_bit bits_power_of_two (1::int)
      in \<lparr>b_bits = 0, b_size = sz, b_mask = sz - 1\<rparr>)"

definition h1 :: "int \<Rightarrow> int" where
  "h1 x0 = (let x1 = x0 XOR (drop_bit 33 x0);
                x2 = x1 * (0xff51afd7ed558ccd AND ((push_bit 64 1) - 1))
            in x2 AND ((push_bit 64 1) - 1))"

definition h2 :: "int \<Rightarrow> int" where
  "h2 x0 = (let x1 = x0 XOR (drop_bit 29 x0);
                x2 = x1 * (0xc4ceb9fe1a85ec53 AND ((push_bit 64 1) - 1))
            in x2 AND ((push_bit 64 1) - 1))"

definition hashes :: "(string \<Rightarrow> int) \<Rightarrow> SimpleBloom \<Rightarrow> string \<Rightarrow> int list" where
  "hashes hsh b s =
     (let h0 = hsh s;
          h = (if h0 < 0 then - h0 else h0);
          a1 = h1 h AND b_mask b;
          a2 = h2 h AND b_mask b;
          a3 = (a1 * 1315423911 + a2 * 2654435761) AND b_mask b
      in [a1, a2, a3])"

text \<open>
  \<^verbatim>\<open>self._bits |= (1 << h)\<close> for each of the three positions. A position is the result of
  \<^verbatim>\<open>& self._mask\<close> with a mask that is never negative, so the shift count is a natural
  number.
\<close>

definition add :: "(string \<Rightarrow> int) \<Rightarrow> string \<Rightarrow> SimpleBloom \<Rightarrow> SimpleBloom" where
  "add hsh s b = fold (\<lambda>h b'. b'\<lparr>b_bits := b_bits b' OR push_bit (nat h) 1\<rparr>) (hashes hsh b s) b"

fun all_bits_set :: "int \<Rightarrow> int list \<Rightarrow> bool" where
  "all_bits_set bs [] = True"
| "all_bits_set bs (h # hs) =
     (if (drop_bit (nat h) bs) AND 1 = 0 then False else all_bits_set bs hs)"

definition maybe_contains :: "(string \<Rightarrow> int) \<Rightarrow> SimpleBloom \<Rightarrow> string \<Rightarrow> bool" where
  "maybe_contains hsh b s = all_bits_set (b_bits b) (hashes hsh b s)"

text \<open>A filter after the calls \<^verbatim>\<open>add(s)\<close> for \<open>s\<close> in \<open>ss\<close>, in that order.\<close>

definition add_all :: "(string \<Rightarrow> int) \<Rightarrow> string list \<Rightarrow> SimpleBloom \<Rightarrow> SimpleBloom" where
  "add_all hsh ss b = fold (add hsh) ss b"

subsection \<open>Strings\<close>

text \<open>
  \<^verbatim>\<open>str.lower\<close> and \<^verbatim>\<open>str.upper\<close> on ASCII text: the 26 letters change, every other
  character stays, and the length is kept.
\<close>

definition lower_char :: "char \<Rightarrow> char" where
  "lower_char c =
     (case map_of (zip ''ABCDEFGHIJKLMNOPQRSTUVWXYZ'' ''abcdefghijklmnopqrstuvwxyz'') c of
        Some d \<Rightarrow> d | None \<Rightarrow> c)"

definition upper_char :: "char \<Rightarrow> char" where
  "upper_char c =
     (case map_of (zip ''abcdefghijklmnopqrstuvwxyz'' ''ABCDEFGHIJKLMNOPQRSTUVWXYZ'') c of
        Some d \<Rightarrow> d | None \<Rightarrow> c)"

definition lower :: "string \<Rightarrow> string" where
  "lower s = map lower_char s"

definition upper :: "string \<Rightarrow> string" where
  "upper s = map upper_char s"

definition newline :: char where
  "newline = CHR 0x0A"

definition backslash :: char where
  "backslash = CHR 0x5C"

definition is_wild :: "char \<Rightarrow> bool" where
  "is_wild ch = (ch = CHR ''?'' \<or> ch = CHR ''*'')"

subsection \<open>Module state: the three global filters\<close>

record blooms =
  blooms_built :: bool
  bloom_words :: SimpleBloom
  bloom_letters :: SimpleBloom
  bloom_bigrams :: SimpleBloom

definition blooms_initial :: blooms where
  "blooms_initial =
     \<lparr>blooms_built = False, bloom_words = SimpleBloom_init 20,
      bloom_letters = SimpleBloom_init 16, bloom_bigrams = SimpleBloom_init 18\<rparr>"

text \<open>
  \<^verbatim>\<open>seg[i : i + 2]\<close> for \<^verbatim>\<open>i in range(len(seg) - 1)\<close>. The iteration over \<^verbatim>\<open>set(wl)\<close> has no
  fixed order in Python; \<open>remdups\<close> fixes one, and the bits set do not depend on it.
\<close>

definition bigrams :: "string \<Rightarrow> string list" where
  "bigrams seg = map (\<lambda>i. take 2 (drop i seg)) [0..<length seg - 1]"

definition init_blooms_word :: "(string \<Rightarrow> int) \<Rightarrow> string \<Rightarrow> blooms \<Rightarrow> blooms" where
  "init_blooms_word hsh wl g =
     (let g1 = g\<lparr>bloom_words := add hsh wl (bloom_words g)\<rparr>;
          g2 = g1\<lparr>bloom_letters := fold (\<lambda>ch. add hsh [ch]) (remdups wl) (bloom_letters g1)\<rparr>
      in if 2 \<le> length wl
         then g2\<lparr>bloom_bigrams := fold (add hsh) (bigrams wl) (bloom_bigrams g2)\<rparr>
         else g2)"

definition init_blooms :: "(string \<Rightarrow> int) \<Rightarrow> string list \<Rightarrow> blooms \<Rightarrow> blooms" where
  "init_blooms hsh words_lower g =
     (if blooms_built g then g
      else (fold (init_blooms_word hsh) words_lower g)\<lparr>blooms_built := True\<rparr>)"

subsection \<open>The pre-filter\<close>

fun letter_segments_loop :: "string \<Rightarrow> string \<Rightarrow> string list \<Rightarrow> string list" where
  "letter_segments_loop [] cur segs = (if cur \<noteq> [] then segs @ [cur] else segs)"
| "letter_segments_loop (ch # rest) cur segs =
     (if is_wild ch
      then (if cur \<noteq> [] then letter_segments_loop rest [] (segs @ [cur])
            else letter_segments_loop rest cur segs)
      else letter_segments_loop rest (cur @ [ch]) segs)"

definition letter_segments :: "string \<Rightarrow> string list" where
  "letter_segments pattern = letter_segments_loop pattern [] []"

definition should_skip_pattern :: "(string \<Rightarrow> int) \<Rightarrow> blooms \<Rightarrow> string \<Rightarrow> bool" where
  "should_skip_pattern hsh g pattern =
     (if pattern = [] then True
      else let p = lower pattern;
               has_letter = list_ex (\<lambda>ch. \<not> is_wild ch) p
           in if \<not> has_letter then False
              else if list_ex (\<lambda>ch. \<not> maybe_contains hsh (bloom_letters g) [ch])
                        (remdups (filter (\<lambda>c. \<not> is_wild c) p)) then True
              else if list_ex (\<lambda>seg. 2 \<le> length seg \<and>
                          list_ex (\<lambda>bg. \<not> maybe_contains hsh (bloom_bigrams g) bg) (bigrams seg))
                        (letter_segments p) then True
              else False)"

subsection \<open>Wildcards to regular expressions\<close>

definition regex_meta :: string where
  "regex_meta = ''.^$+{}[]|()'' @ [backslash]"

definition escape_char :: "bool \<Rightarrow> char \<Rightarrow> string" where
  "escape_char allow_star ch =
     (if ch \<in> set regex_meta then [backslash, ch]
      else if ch = CHR ''?'' then ''.''
      else if ch = CHR ''*'' \<and> allow_star then ''.*''
      else [ch])"

definition wildcard_to_regex_body :: "string \<Rightarrow> bool \<Rightarrow> bool \<Rightarrow> string" where
  "wildcard_to_regex_body pattern allow_star partial =
     (let body = concat (map (escape_char allow_star) pattern)
      in if partial then ''.*'' @ body @ ''.*'' else body)"

text \<open>
  Python's \<^verbatim>\<open>re\<close> module is not part of the repository. It is modelled on the fragment that
  \<open>wildcard_to_regex_body\<close> produces: a backslash followed by a meta character is that
  character, \<^verbatim>\<open>.\<close> is any character but a newline, \<^verbatim>\<open>.*\<close> any run of them, and a
  character that is not special stands for itself. Any other use of a special character is
  outside the fragment and \<open>re_parse\<close> returns \<open>None\<close> there. With \<^verbatim>\<open>re.IGNORECASE\<close> a literal
  matches a character when both fold to the same lower-case character. The anchors
  \<^verbatim>\<open>^\<close> and \<^verbatim>\<open>$\<close> that \<^verbatim>\<open>_compile_regex_body\<close> puts around the body are the field
  \<open>rx_anchored\<close>. The \<^verbatim>\<open>lru_cache\<close> around the compilation changes no result and is
  left out.
\<close>

datatype rx_item = Lit char | AnyChar | AnyStar

record regex =
  rx_anchored :: bool
  rx_items :: "rx_item list"

function re_parse :: "string \<Rightarrow> rx_item list option" where
  "re_parse [] = Some []"
| "re_parse (c # cs) =
     (if c = backslash then
        (case cs of
           [] \<Rightarrow> None
         | d # ds \<Rightarrow> if d \<in> set regex_meta then map_option ((#) (Lit d)) (re_parse ds) else None)
      else if c = CHR ''.'' then
        (if cs \<noteq> [] \<and> hd cs = CHR ''*'' then map_option ((#) AnyStar) (re_parse (tl cs))
         else map_option ((#) AnyChar) (re_parse cs))
      else if c \<in> set ''^$*+?{}[]|()'' then None
      else map_option ((#) (Lit c)) (re_parse cs))"
  by pat_completeness auto
termination
  by (relation "measure length") auto

definition compile_regex_body :: "string \<Rightarrow> bool \<Rightarrow> py_error + regex" where
  "compile_regex_body body anchored =
     (case re_parse body of
        None \<Rightarrow> Inl ReError
      | Some items \<Rightarrow> Inr \<lparr>rx_anchored = anchored, rx_items = items\<rparr>)"

fun match_items :: "rx_item list \<Rightarrow> string \<Rightarrow> bool" where
  "match_items [] w = (w = [])"
| "match_items (Lit c # r) [] = False"
| "match_items (Lit c # r) (d # w) = (lower_char d = lower_char c \<and> match_items r w)"
| "match_items (AnyChar # r) [] = False"
| "match_items (AnyChar # r) (d # w) = (d \<noteq> newline \<and> match_items r w)"
| "match_items (AnyStar # r) [] = match_items r []"
| "match_items (AnyStar # r) (d # w) =
     (match_items r (d # w) \<or> (d \<noteq> newline \<and> match_items (AnyStar # r) w))"

text \<open>
  \<^verbatim>\<open>rx.fullmatch(w)\<close>: the whole of \<open>w\<close> matches. \<^verbatim>\<open>rx.search(w)\<close>: some substring of \<open>w\<close>
  matches; with the anchors the substring is \<open>w\<close>, or \<open>w\<close> without its final newline.
\<close>

definition fullmatch :: "regex \<Rightarrow> string \<Rightarrow> bool" where
  "fullmatch rx w = match_items (rx_items rx) w"

definition search :: "regex \<Rightarrow> string \<Rightarrow> bool" where
  "search rx w =
     (if rx_anchored rx
      then match_items (rx_items rx) w \<or>
           (w \<noteq> [] \<and> last w = newline \<and> match_items (rx_items rx) (butlast w))
      else list_ex (\<lambda>s. list_ex (match_items (rx_items rx)) (prefixes s)) (suffixes w))"

subsection \<open>The word index (\<^verbatim>\<open>WordIndex\<close>)\<close>

text \<open>
  \<^verbatim>\<open>len_to_indices\<close> is a Python dictionary, iterated in the order in which its keys were
  first inserted: an association list in that order. \<^verbatim>\<open>pos_char_index\<close> is only read by
  key: a map.
\<close>

type_synonym by_pos = "(char \<rightharpoonup> nat set) list"

record WordIndex =
  words :: "string list"
  words_lower :: "string list"
  len_to_indices :: "(nat \<times> nat list) list"
  pos_char_index :: "nat \<rightharpoonup> by_pos"

text \<open>\<^verbatim>\<open>d.setdefault(L, []).append(i)\<close>\<close>

fun setdefault_append :: "(nat \<times> nat list) list \<Rightarrow> nat \<Rightarrow> nat \<Rightarrow> (nat \<times> nat list) list" where
  "setdefault_append [] L i = [(L, [i])]"
| "setdefault_append ((k, v) # kvs) L i =
     (if k = L then (k, v @ [i]) # kvs else (k, v) # setdefault_append kvs L i)"

definition build_len_to_indices :: "string list \<Rightarrow> (nat \<times> nat list) list" where
  "build_len_to_indices wls =
     fold (\<lambda>(i, w) d. setdefault_append d (length w) i) (enumerate 0 wls) []"

text \<open>
  The inner loops of \<^verbatim>\<open>_build_indexes\<close>. Every position \<open>p\<close> is below the length of the
  word, which is the length \<open>L\<close> of \<open>by_pos\<close>, and every \<open>i\<close> is an index that
  \<^verbatim>\<open>enumerate\<close> produced: the bucket of \<open>L\<close> holds the indices of the lowered words of
  length \<open>L\<close> (lemmas \<open>build_len_to_indices_eq\<close> and \<open>bucket_of_in_range\<close>), so that no
  read is out of range.
\<close>

definition add_position :: "nat \<Rightarrow> nat \<times> char \<Rightarrow> by_pos \<Rightarrow> by_pos" where
  "add_position i pc bp =
     (case pc of (p, ch) \<Rightarrow>
        let d = bp ! p;
            s = (case d ch of None \<Rightarrow> {} | Some s0 \<Rightarrow> s0)
        in bp[p := d(ch \<mapsto> insert i s)])"

definition build_by_pos :: "string list \<Rightarrow> nat \<Rightarrow> nat list \<Rightarrow> by_pos" where
  "build_by_pos wls L idxs =
     fold (\<lambda>i bp. fold (add_position i) (enumerate 0 (wls ! i)) bp) idxs (replicate L Map.empty)"

definition build_pos_char_index :: "string list \<Rightarrow> (nat \<times> nat list) list \<Rightarrow> nat \<rightharpoonup> by_pos" where
  "build_pos_char_index wls items =
     fold (\<lambda>(L, idxs) m. m(L \<mapsto> build_by_pos wls L idxs)) items Map.empty"

text \<open>
  \<^verbatim>\<open>__init__\<close> with \<^verbatim>\<open>_build_indexes\<close>: \<open>lw\<close> is \<^verbatim>\<open>str.lower\<close>, which the constructor
  applies to every word. The buckets are keyed by the length of the lowered word.
\<close>

definition WordIndex_with :: "(string \<Rightarrow> string) \<Rightarrow> string list \<Rightarrow> WordIndex" where
  "WordIndex_with lw ws =
     (let wls = map lw ws;
          l2i = build_len_to_indices wls
      in \<lparr>words = ws, words_lower = wls, len_to_indices = l2i,
          pos_char_index = build_pos_char_index wls l2i\<rparr>)"

definition WordIndex_init :: "string list \<Rightarrow> WordIndex" where
  "WordIndex_init ws = WordIndex_with lower ws"

subsubsection \<open>Exact mode\<close>

text \<open>
  The loop over the fixed positions: \<open>cand\<close> is \<^verbatim>\<open>candidate\<close>. The early
  \<^verbatim>\<open>return []\<close> on an empty candidate set is the result \<open>None\<close>.
\<close>

fun intersect_fixed ::
  "by_pos \<Rightarrow> (nat \<times> char) list \<Rightarrow> nat set option \<Rightarrow> py_error + nat set option option" where
  "intersect_fixed bp [] cand = Inr (Some cand)"
| "intersect_fixed bp ((pos, ch) # rest) cand =
     (if pos < length bp then
        let s = (case (bp ! pos) ch of None \<Rightarrow> {} | Some s0 \<Rightarrow> s0);
            c = (case cand of None \<Rightarrow> s | Some c0 \<Rightarrow> c0 \<inter> s)
        in if c = {} then Inr None else intersect_fixed bp rest (Some c)
      else Inl IndexError)"

definition exact_indices_via_pos_index :: "WordIndex \<Rightarrow> string \<Rightarrow> py_error + nat list" where
  "exact_indices_via_pos_index idx pattern =
     (let L = length pattern in
      case map_of (len_to_indices idx) L of
        None \<Rightarrow> Inr []
      | Some idxs \<Rightarrow>
          if idxs = [] then Inr []
          else let pat = lower pattern;
                   fixed_positions = filter (\<lambda>(i, c). c \<noteq> CHR ''?'') (enumerate 0 pat)
               in if fixed_positions = [] then Inr idxs
                  else case pos_char_index idx L of
                         None \<Rightarrow> Inl KeyError
                       | Some bp \<Rightarrow>
                           (case intersect_fixed bp fixed_positions None of
                              Inl e \<Rightarrow> Inl e
                            | Inr None \<Rightarrow> Inr []
                            | Inr (Some None) \<Rightarrow> Inl AssertionError
                            | Inr (Some (Some cand)) \<Rightarrow> Inr (filter (\<lambda>i. i \<in> cand) idxs)))"

text \<open>\<^verbatim>\<open>[self.words[i] for i in idxs]\<close>\<close>

fun words_at :: "string list \<Rightarrow> nat list \<Rightarrow> py_error + string list" where
  "words_at ws [] = Inr []"
| "words_at ws (i # is) =
     (if i < length ws
      then (case words_at ws is of Inl e \<Rightarrow> Inl e | Inr r \<Rightarrow> Inr (ws ! i # r))
      else Inl IndexError)"

text \<open>
  The scan \<^verbatim>\<open>for L, idxs in self.len_to_indices.items()\<close> with its inner loop over \<open>idxs\<close>,
  which the four search functions share: \<open>P\<close> is the test on \<^verbatim>\<open>self.words[i]\<close>, \<open>acc\<close> the
  list built so far (\<open>scan_find\<close>) or the counter (\<open>scan_count\<close>).
\<close>

fun scan_bucket_find ::
  "(string \<Rightarrow> bool) \<Rightarrow> string list \<Rightarrow> nat list \<Rightarrow> string list \<Rightarrow> py_error + string list" where
  "scan_bucket_find P ws [] acc = Inr acc"
| "scan_bucket_find P ws (i # is) acc =
     (if i < length ws
      then scan_bucket_find P ws is (if P (ws ! i) then acc @ [ws ! i] else acc)
      else Inl IndexError)"

fun scan_find ::
  "(string \<Rightarrow> bool) \<Rightarrow> string list \<Rightarrow> nat \<Rightarrow> (nat \<times> nat list) list \<Rightarrow> string list
     \<Rightarrow> py_error + string list" where
  "scan_find P ws min_len [] acc = Inr acc"
| "scan_find P ws min_len ((L, idxs) # rest) acc =
     (if L < min_len then scan_find P ws min_len rest acc
      else case scan_bucket_find P ws idxs acc of
             Inl e \<Rightarrow> Inl e
           | Inr acc' \<Rightarrow> scan_find P ws min_len rest acc')"

fun scan_bucket_count ::
  "(string \<Rightarrow> bool) \<Rightarrow> string list \<Rightarrow> nat list \<Rightarrow> nat \<Rightarrow> py_error + nat" where
  "scan_bucket_count P ws [] cnt = Inr cnt"
| "scan_bucket_count P ws (i # is) cnt =
     (if i < length ws
      then scan_bucket_count P ws is (if P (ws ! i) then cnt + 1 else cnt)
      else Inl IndexError)"

fun scan_count ::
  "(string \<Rightarrow> bool) \<Rightarrow> string list \<Rightarrow> nat \<Rightarrow> (nat \<times> nat list) list \<Rightarrow> nat \<Rightarrow> py_error + nat" where
  "scan_count P ws min_len [] cnt = Inr cnt"
| "scan_count P ws min_len ((L, idxs) # rest) cnt =
     (if L < min_len then scan_count P ws min_len rest cnt
      else case scan_bucket_count P ws idxs cnt of
             Inl e \<Rightarrow> Inl e
           | Inr cnt' \<Rightarrow> scan_count P ws min_len rest cnt')"

text \<open>\<^verbatim>\<open>sum(1 for ch in pattern if ch != '*')\<close>\<close>

definition min_len_of :: "string \<Rightarrow> nat" where
  "min_len_of pattern = length (filter (\<lambda>ch. ch \<noteq> CHR ''*'') pattern)"

definition find_exact :: "(string \<Rightarrow> int) \<Rightarrow> blooms \<Rightarrow> WordIndex \<Rightarrow> string \<Rightarrow> py_error + string list" where
  "find_exact hsh g idx pattern =
     (if should_skip_pattern hsh g pattern then Inr []
      else if CHR ''*'' \<notin> set pattern then
        (case exact_indices_via_pos_index idx pattern of
           Inl e \<Rightarrow> Inl e
         | Inr idxs \<Rightarrow> words_at (words idx) idxs)
      else
        (case compile_regex_body (wildcard_to_regex_body pattern True False) True of
           Inl e \<Rightarrow> Inl e
         | Inr rx \<Rightarrow> scan_find (fullmatch rx) (words idx) (min_len_of pattern) (len_to_indices idx) []))"

definition count_exact :: "(string \<Rightarrow> int) \<Rightarrow> blooms \<Rightarrow> WordIndex \<Rightarrow> string \<Rightarrow> py_error + nat" where
  "count_exact hsh g idx pattern =
     (if should_skip_pattern hsh g pattern then Inr 0
      else if CHR ''*'' \<notin> set pattern then
        (case exact_indices_via_pos_index idx pattern of
           Inl e \<Rightarrow> Inl e
         | Inr idxs \<Rightarrow> Inr (length idxs))
      else
        (case compile_regex_body (wildcard_to_regex_body pattern True False) True of
           Inl e \<Rightarrow> Inl e
         | Inr rx \<Rightarrow> scan_count (fullmatch rx) (words idx) (min_len_of pattern) (len_to_indices idx) 0))"

subsubsection \<open>Partial mode\<close>

definition find_partial :: "(string \<Rightarrow> int) \<Rightarrow> blooms \<Rightarrow> WordIndex \<Rightarrow> string \<Rightarrow> py_error + string list" where
  "find_partial hsh g idx pattern =
     (if should_skip_pattern hsh g pattern then Inr []
      else if CHR ''*'' \<notin> set pattern then
        (let L = length pattern in
         if list_all (\<lambda>ch. ch = CHR ''?'') pattern
         then Inr (filter (\<lambda>w. L \<le> length w) (words idx))
         else case compile_regex_body (wildcard_to_regex_body pattern False True) False of
                Inl e \<Rightarrow> Inl e
              | Inr rx \<Rightarrow> scan_find (search rx) (words idx) L (len_to_indices idx) [])
      else
        (case compile_regex_body (wildcard_to_regex_body pattern True True) False of
           Inl e \<Rightarrow> Inl e
         | Inr rx \<Rightarrow> scan_find (search rx) (words idx) (min_len_of pattern) (len_to_indices idx) []))"

definition count_partial :: "(string \<Rightarrow> int) \<Rightarrow> blooms \<Rightarrow> WordIndex \<Rightarrow> string \<Rightarrow> py_error + nat" where
  "count_partial hsh g idx pattern =
     (if should_skip_pattern hsh g pattern then Inr 0
      else if CHR ''*'' \<notin> set pattern then
        (let L = length pattern in
         if list_all (\<lambda>ch. ch = CHR ''?'') pattern
         then Inr (sum_list (map (\<lambda>(LL, idxs). length idxs)
                      (filter (\<lambda>(LL, idxs). L \<le> LL) (len_to_indices idx))))
         else case compile_regex_body (wildcard_to_regex_body pattern False True) False of
                Inl e \<Rightarrow> Inl e
              | Inr rx \<Rightarrow> scan_count (search rx) (words idx) L (len_to_indices idx) 0)
      else
        (case compile_regex_body (wildcard_to_regex_body pattern True True) False of
           Inl e \<Rightarrow> Inl e
         | Inr rx \<Rightarrow> scan_count (search rx) (words idx) (min_len_of pattern) (len_to_indices idx) 0))"

subsection \<open>Python string methods used by the servers\<close>

definition quote :: char where
  "quote = CHR 0x27"

definition isspace :: "char \<Rightarrow> bool" where
  "isspace c = (c \<in> set [CHR 0x09, CHR 0x0A, CHR 0x0B, CHR 0x0C, CHR 0x0D,
                           CHR 0x1C, CHR 0x1D, CHR 0x1E, CHR 0x1F, CHR 0x20])"

text \<open>\<^verbatim>\<open>s.strip()\<close> and \<^verbatim>\<open>s.split()\<close> with no argument: white space is trimmed, or separates.\<close>

definition strip :: "string \<Rightarrow> string" where
  "strip s = rev (dropWhile isspace (rev (dropWhile isspace s)))"

fun split_ws_loop :: "string \<Rightarrow> string \<Rightarrow> string list" where
  "split_ws_loop [] cur = (if cur = [] then [] else [cur])"
| "split_ws_loop (c # cs) cur =
     (if isspace c then (if cur = [] then split_ws_loop cs [] else cur # split_ws_loop cs [])
      else split_ws_loop cs (cur @ [c]))"

definition split_ws :: "string \<Rightarrow> string list" where
  "split_ws s = split_ws_loop s []"

text \<open>\<^verbatim>\<open>raw.rstrip('\r\n')\<close>: trailing carriage returns and newlines are removed.\<close>

definition rstrip_crlf :: "string \<Rightarrow> string" where
  "rstrip_crlf s = rev (dropWhile (\<lambda>c. c = CHR 0x0D \<or> c = CHR 0x0A) (rev s))"

text \<open>\<^verbatim>\<open>line.split(' ', 1)\<close>: at most one split, at the first space.\<close>

definition split_first_space :: "string \<Rightarrow> string list" where
  "split_first_space s =
     (if CHR '' '' \<in> set s
      then [takeWhile (\<lambda>c. c \<noteq> CHR '' '') s, tl (dropWhile (\<lambda>c. c \<noteq> CHR '' '') s)]
      else [s])"

text \<open>
  \<^verbatim>\<open>sep in s\<close> and \<^verbatim>\<open>s.rsplit(sep, 1)\<close>: \<open>rfind\<close> is the highest index at which \<open>sep\<close> occurs
  in \<open>s\<close>. \<open>rsplit_once\<close> is only called where \<open>sep\<close> occurs.
\<close>

fun rfind :: "string \<Rightarrow> string \<Rightarrow> nat option" where
  "rfind sep [] = (if sep = [] then Some 0 else None)"
| "rfind sep (c # cs) =
     (case rfind sep cs of
        Some i \<Rightarrow> Some (Suc i)
      | None \<Rightarrow> if prefix sep (c # cs) then Some 0 else None)"

definition contains :: "string \<Rightarrow> string \<Rightarrow> bool" where
  "contains sep s = (rfind sep s \<noteq> None)"

definition rsplit_once :: "string \<Rightarrow> string \<Rightarrow> string \<times> string" where
  "rsplit_once sep s =
     (case rfind sep s of
        Some i \<Rightarrow> (take i s, drop (i + length sep) s)
      | None \<Rightarrow> (s, []))"

text \<open>\<^verbatim>\<open>t.isdigit()\<close>, \<^verbatim>\<open>int(t)\<close> on such a token, \<^verbatim>\<open>str(n)\<close> and \<^verbatim>\<open>s.count(ch)\<close>.\<close>

definition isdigit :: "string \<Rightarrow> bool" where
  "isdigit t = (t \<noteq> [] \<and> list_all (\<lambda>c. c \<in> set ''0123456789'') t)"

definition digit_value :: "char \<Rightarrow> int" where
  "digit_value c = int (of_char c) - 48"

definition int_of_digits :: "string \<Rightarrow> int" where
  "int_of_digits t = foldl (\<lambda>a c. 10 * a + digit_value c) 0 t"

definition digit_char :: "nat \<Rightarrow> char" where
  "digit_char d = char_of (48 + d)"

function str_nat :: "nat \<Rightarrow> string" where
  "str_nat n = (if n < 10 then [digit_char n] else str_nat (n div 10) @ [digit_char (n mod 10)])"
  by pat_completeness auto
termination
  by (relation "measure id") auto

declare str_nat.simps [simp del]

definition str_int :: "int \<Rightarrow> string" where
  "str_int i = (if i < 0 then CHR ''-'' # str_nat (nat (- i)) else str_nat (nat i))"

definition count_char :: "char \<Rightarrow> string \<Rightarrow> nat" where
  "count_char ch s = length (filter (\<lambda>c. c = ch) s)"

text \<open>\<^verbatim>\<open>'\n'.join(matches)\<close>\<close>

fun join_lines :: "string list \<Rightarrow> string" where
  "join_lines [] = []"
| "join_lines [w] = w"
| "join_lines (w # ws) = w @ [newline] @ join_lines ws"

subsection \<open>Replies\<close>

definition end_line :: string where
  "end_line = ''END'' @ [newline]"

definition bad_request :: "string \<Rightarrow> string" where
  "bad_request reason = ''400 BAD-REQUEST '' @ reason @ [newline] @ end_line"

definition not_found :: string where
  "not_found = ''404 NOT-FOUND 0'' @ [newline] @ end_line"

definition expected_syntax :: string where
  "expected_syntax =
     ''expected '' @ [quote] @ ''FIND <pattern>'' @ [quote] @ '' or '' @ [quote] @
     ''COUNT <pattern>'' @ [quote] @ '' or '' @ [quote] @ ''STATS'' @ [quote]"

definition expected_find :: string where
  "expected_find = ''expected '' @ [quote] @ ''FIND <pattern>'' @ [quote]"

definition count_reply :: "nat \<Rightarrow> string" where
  "count_reply count =
     (if count = 0 then not_found
      else ''200 OK '' @ str_nat count @ [newline] @ end_line)"

text \<open>
  \<^verbatim>\<open>gzip.compress\<close> and \<^verbatim>\<open>base64.b64encode\<close> are library functions: the parameters \<open>gz\<close>
  and \<open>b64\<close>. On ASCII text \<^verbatim>\<open>encode('utf-8')\<close> and \<^verbatim>\<open>decode('ascii')\<close> change nothing.
\<close>

definition find_reply :: "(string \<Rightarrow> string) \<Rightarrow> (string \<Rightarrow> string) \<Rightarrow> bool \<Rightarrow> string list \<Rightarrow> string" where
  "find_reply gz b64 request_gzip matches =
     (let count = length matches in
      if count = 0 then not_found
      else if request_gzip then
        ''200 OK 1'' @ [newline] @ ''GZIP '' @ b64 (gz (join_lines matches)) @ [newline] @ end_line
      else
        ''200 OK '' @ str_nat count @ [newline] @ concat (map (\<lambda>w. w @ [newline]) matches) @ end_line)"

definition batch_reply :: "nat list \<Rightarrow> string" where
  "batch_reply counts =
     ''200 OK '' @ str_nat (length counts) @ [newline] @
     concat (map (\<lambda>(i, c). ''COUNT '' @ str_nat i @ '' '' @ str_nat c @ [newline]) (enumerate 0 counts)) @
     end_line"

subsection \<open>Complexity limits\<close>

definition effective_complexity_limits :: "bool \<Rightarrow> int \<Rightarrow> int \<Rightarrow> int \<times> int" where
  "effective_complexity_limits under_memory_pressure max_questions max_stars =
     (if under_memory_pressure
      then (max 1 (max_questions div 2), max 1 (max_stars div 2))
      else (max_questions, max_stars))"

definition is_pattern_too_complex :: "string \<Rightarrow> int \<Rightarrow> int \<Rightarrow> bool \<times> string" where
  "is_pattern_too_complex pat max_q max_s =
     (let q = int (count_char (CHR ''?'') pat);
          s = int (count_char (CHR ''*'') pat)
      in if q > max_q then
           (True, ''too many '' @ [quote] @ ''?'' @ [quote] @ '' wildcards (> '' @ str_int max_q @ '')'')
         else if s > max_s then
           (True, ''too many '' @ [quote] @ ''*'' @ [quote] @ '' wildcards (> '' @ str_int max_s @ '')'')
         else (False, []))"

subsection \<open>Requests\<close>

text \<open>
  What a server holds while it serves one request. \<open>sv_pressure\<close> is the value that
  \<^verbatim>\<open>_memory_pressure_handler\<close> leaves in \<^verbatim>\<open>UNDER_MEMORY_PRESSURE\<close> for this request (it reads
  the resident memory of the process). \<open>sv_stats_reply\<close> is the reply to \<^verbatim>\<open>STATS\<close>, built from
  counters and timings. \<^verbatim>\<open>json.loads\<close> followed by the test for a list of strings is
  \<open>sv_json_loads\<close>. The counters of \<^verbatim>\<open>Stats\<close> and the log are written but never read on
  the paths below, and are left out.
\<close>

record server =
  sv_hash :: "string \<Rightarrow> int"
  sv_blooms :: blooms
  sv_index :: WordIndex
  sv_default_mode :: string
  sv_max_pattern_length :: nat
  sv_max_questions :: int
  sv_max_stars :: int
  sv_pressure :: bool
  sv_stats_reply :: string
  sv_json_loads :: "string \<Rightarrow> string list option"
  sv_gzip :: "string \<Rightarrow> string"
  sv_b64encode :: "string \<Rightarrow> string"

record request =
  rq_cmd :: string
  rq_pattern :: string
  rq_mode :: string
  rq_gzip :: bool
  rq_offset :: int
  rq_limit :: "int option"

text \<open>
  The outcome of one request: the text sent, nothing sent and the next line read
  (\<^verbatim>\<open>continue\<close>), the connection closed without a reply (\<^verbatim>\<open>QUIT\<close>, end of input), or an
  exception that leaves the handler.
\<close>

datatype outcome = Reply string | NoReply | Closed | Raised py_error

text \<open>The option suffixes, stripped from the right: encoding, then range, then mode.\<close>

definition parse_encoding :: "string \<Rightarrow> string + (string \<times> bool)" where
  "parse_encoding rest =
     (if contains '' --accept-encoding '' rest then
        (case rsplit_once '' --accept-encoding '' rest of
           (rest', enc_part) \<Rightarrow>
             if lower (strip enc_part) \<noteq> ''gzip'' then Inl (bad_request ''invalid encoding'')
             else Inr (rest', True))
      else Inr (rest, False))"

definition parse_range :: "string \<Rightarrow> string + (string \<times> int \<times> int option)" where
  "parse_range rest =
     (if contains '' RANGE '' rest then
        (case rsplit_once '' RANGE '' rest of
           (rest', range_part) \<Rightarrow>
             let rng_tokens = split_ws (strip range_part) in
             if length rng_tokens \<noteq> 2 \<or> \<not> list_all isdigit rng_tokens
             then Inl (bad_request ''invalid RANGE'')
             else Inr (rest', int_of_digits (rng_tokens ! 0), Some (int_of_digits (rng_tokens ! 1))))
      else Inr (rest, 0, None))"

definition parse_mode_threaded :: "string \<Rightarrow> string \<Rightarrow> string + (string \<times> string)" where
  "parse_mode_threaded default_mode rest =
     (if contains '' --mode '' rest then
        (case rsplit_once '' --mode '' rest of
           (pattern_part, mode_part) \<Rightarrow>
             if pattern_part = [] then Inl (bad_request expected_find)
             else let mv = lower (strip mode_part) in
                  if mv \<noteq> ''exact'' \<and> mv \<noteq> ''partial'' then Inl (bad_request ''invalid mode'')
                  else Inr (pattern_part, mv))
      else Inr (rest, default_mode))"

definition parse_mode_basic :: "string \<Rightarrow> string + string" where
  "parse_mode_basic rest =
     (if contains '' --mode '' rest then
        (case rsplit_once '' --mode '' rest of
           (pattern_part, mode_part) \<Rightarrow>
             let mv = lower (strip mode_part) in
             if mv \<noteq> ''exact'' then Inl (bad_request ''mode not supported'')
             else Inr pattern_part)
      else Inr rest)"

definition parse_threaded :: "string \<Rightarrow> string \<Rightarrow> string \<Rightarrow> string + request" where
  "parse_threaded default_mode cmd rest =
     (case parse_encoding rest of
        Inl e \<Rightarrow> Inl e
      | Inr (rest1, request_gzip) \<Rightarrow>
          (case parse_range rest1 of
             Inl e \<Rightarrow> Inl e
           | Inr (rest2, offset, limit) \<Rightarrow>
               (case parse_mode_threaded default_mode rest2 of
                  Inl e \<Rightarrow> Inl e
                | Inr (pattern, req_mode) \<Rightarrow>
                    Inr \<lparr>rq_cmd = cmd, rq_pattern = pattern, rq_mode = req_mode,
                        rq_gzip = request_gzip, rq_offset = offset, rq_limit = limit\<rparr>)))"

definition parse_basic :: "string \<Rightarrow> string \<Rightarrow> string + request" where
  "parse_basic cmd rest =
     (case parse_encoding rest of
        Inl e \<Rightarrow> Inl e
      | Inr (rest1, request_gzip) \<Rightarrow>
          (case parse_range rest1 of
             Inl e \<Rightarrow> Inl e
           | Inr (rest2, offset, limit) \<Rightarrow>
               (case parse_mode_basic rest2 of
                  Inl e \<Rightarrow> Inl e
                | Inr pattern \<Rightarrow>
                    Inr \<lparr>rq_cmd = cmd, rq_pattern = pattern, rq_mode = ''exact'',
                        rq_gzip = request_gzip, rq_offset = offset, rq_limit = limit\<rparr>)))"

subsection \<open>The request pipeline\<close>

text \<open>
  From the line read to the command and the remainder, in \<^verbatim>\<open>handle_connection\<close> (lines 277
  to 384). \<open>raw\<close> is the line with its terminator; on ASCII text decoding does not fail.
\<close>

definition read_command_threaded :: "server \<Rightarrow> string \<Rightarrow> outcome + (string \<times> string)" where
  "read_command_threaded sv raw =
     (if raw = [] then Inl Closed
      else if length raw > sv_max_pattern_length sv then Inl (Reply (bad_request ''pattern too long''))
      else let line = rstrip_crlf raw in
        if line = [] then Inl NoReply
        else let parts = split_first_space line;
                 cmd = upper (hd parts)
             in if cmd = ''QUIT'' then Inl Closed
                else if cmd = ''STATS'' then Inl (Reply (sv_stats_reply sv))
                else if cmd \<notin> set [''FIND'', ''FIND_MULTI'', ''COUNT'', ''BATCH''] \<or>
                        length parts \<noteq> 2 \<or> parts ! 1 = []
                     then Inl (Reply (bad_request expected_syntax))
                     else Inr (cmd, parts ! 1))"

text \<open>The same in \<^verbatim>\<open>serve_once\<close> (lines 245 to 347): an empty line is not skipped there.\<close>

definition read_command_basic :: "server \<Rightarrow> string \<Rightarrow> outcome + (string \<times> string)" where
  "read_command_basic sv raw =
     (if raw = [] then Inl Closed
      else if length raw > sv_max_pattern_length sv then Inl (Reply (bad_request ''pattern too long''))
      else let line = rstrip_crlf raw;
               parts = split_first_space line;
               cmd = upper (hd parts)
           in if cmd = ''QUIT'' then Inl Closed
              else if cmd = ''STATS'' then Inl (Reply (sv_stats_reply sv))
              else if cmd \<notin> set [''FIND'', ''FIND_MULTI'', ''COUNT''] \<or>
                      length parts \<noteq> 2 \<or> parts ! 1 = []
                   then Inl (Reply (bad_request expected_syntax))
                   else Inr (cmd, parts ! 1))"

text \<open>
  The two guards between parsing and matching, the same in both servers: the length of the
  pattern, then the complexity guard. The result is the reply of the guard that fires.
\<close>

definition guard :: "server \<Rightarrow> request \<Rightarrow> string option" where
  "guard sv rq =
     (if length (rq_pattern rq) > sv_max_pattern_length sv then Some (bad_request ''pattern too long'')
      else case effective_complexity_limits (sv_pressure sv) (sv_max_questions sv) (sv_max_stars sv) of
             (max_q, max_s) \<Rightarrow>
               (case is_pattern_too_complex (rq_pattern rq) max_q max_s of
                  (too_complex, reason) \<Rightarrow>
                    if too_complex then Some (bad_request (''pattern too complex: '' @ reason))
                    else None))"

definition count_in_mode :: "server \<Rightarrow> string \<Rightarrow> string \<Rightarrow> py_error + nat" where
  "count_in_mode sv req_mode pattern =
     (if req_mode = ''exact'' then count_exact (sv_hash sv) (sv_blooms sv) (sv_index sv) pattern
      else count_partial (sv_hash sv) (sv_blooms sv) (sv_index sv) pattern)"

definition find_in_mode :: "server \<Rightarrow> string \<Rightarrow> string \<Rightarrow> py_error + string list" where
  "find_in_mode sv req_mode pattern =
     (if req_mode = ''exact'' then find_exact (sv_hash sv) (sv_blooms sv) (sv_index sv) pattern
      else find_partial (sv_hash sv) (sv_blooms sv) (sv_index sv) pattern)"

text \<open>
  \<^verbatim>\<open>FIND_MULTI\<close>: the matches of each token, merged in first-seen order. \<^verbatim>\<open>seen\<close> always
  holds the words of \<open>out\<close>.
\<close>

fun find_multi ::
  "(string \<Rightarrow> py_error + string list) \<Rightarrow> string list \<Rightarrow> string list \<Rightarrow> py_error + string list" where
  "find_multi f [] out = Inr out"
| "find_multi f (pat # tokens) out =
     (case f pat of
        Inl e \<Rightarrow> Inl e
      | Inr ms \<Rightarrow> find_multi f tokens (fold (\<lambda>w acc. if w \<in> set acc then acc else acc @ [w]) ms out))"

text \<open>The matches of a \<^verbatim>\<open>FIND\<close> or \<^verbatim>\<open>FIND_MULTI\<close> request before pagination.\<close>

definition unpaginated :: "server \<Rightarrow> request \<Rightarrow> py_error + string list" where
  "unpaginated sv rq =
     (if rq_cmd rq = ''FIND_MULTI''
      then find_multi (find_in_mode sv (rq_mode rq)) (split_ws (strip (rq_pattern rq))) []
      else find_in_mode sv (rq_mode rq) (rq_pattern rq))"

text \<open>\<^verbatim>\<open>BATCH\<close>: a pattern that is too complex counts as 0.\<close>

fun batch_counts :: "server \<Rightarrow> string \<Rightarrow> string list \<Rightarrow> py_error + nat list" where
  "batch_counts sv req_mode [] = Inr []"
| "batch_counts sv req_mode (p # pats) =
     (case effective_complexity_limits (sv_pressure sv) (sv_max_questions sv) (sv_max_stars sv) of
        (max_q, max_s) \<Rightarrow>
          if fst (is_pattern_too_complex p max_q max_s)
          then (case batch_counts sv req_mode pats of Inl e \<Rightarrow> Inl e | Inr cs \<Rightarrow> Inr (0 # cs))
          else (case count_in_mode sv req_mode p of
                  Inl e \<Rightarrow> Inl e
                | Inr c \<Rightarrow> (case batch_counts sv req_mode pats of Inl e \<Rightarrow> Inl e | Inr cs \<Rightarrow> Inr (c # cs))))"

text \<open>
  Lines 544 to 549 of \<^verbatim>\<open>handle_connection\<close> (446 to 451 of \<^verbatim>\<open>serve_once\<close>): the slice
  \<^verbatim>\<open>matches[offset : offset + limit]\<close> when a \<^verbatim>\<open>RANGE\<close> was given.
\<close>

definition paginate :: "int \<Rightarrow> int option \<Rightarrow> 'a list \<Rightarrow> 'a list" where
  "paginate offset limit matches =
     (case limit of
        None \<Rightarrow> matches
      | Some lim \<Rightarrow>
          let offset' = (if offset < 0 then 0 else offset);
              limit' = (if lim < 0 then 0 else lim)
          in take (nat limit') (drop (nat offset') matches))"

definition expected_find_multi :: "string \<Rightarrow> string" where
  "expected_find_multi names =
     ''expected '' @ [quote] @ ''FIND_MULTI '' @ names @ '' ...'' @ [quote]"

definition execute_find :: "server \<Rightarrow> request \<Rightarrow> string \<Rightarrow> outcome" where
  "execute_find sv rq names =
     (if rq_cmd rq = ''FIND_MULTI'' \<and> split_ws (strip (rq_pattern rq)) = []
      then Reply (bad_request (expected_find_multi names))
      else case unpaginated sv rq of
             Inl e \<Rightarrow> Raised e
           | Inr ms \<Rightarrow>
               Reply (find_reply (sv_gzip sv) (sv_b64encode sv) (rq_gzip rq)
                        (paginate (rq_offset rq) (rq_limit rq) ms)))"

definition execute_threaded :: "server \<Rightarrow> request \<Rightarrow> outcome" where
  "execute_threaded sv rq =
     (if rq_cmd rq = ''BATCH'' then
        (case sv_json_loads sv (rq_pattern rq) of
           None \<Rightarrow> Reply (bad_request ''invalid batch payload'')
         | Some pats \<Rightarrow>
             (case batch_counts sv (rq_mode rq) pats of
                Inl e \<Rightarrow> Raised e
              | Inr counts \<Rightarrow> Reply (batch_reply counts)))
      else if rq_cmd rq = ''COUNT'' then
        (case count_in_mode sv (rq_mode rq) (rq_pattern rq) of
           Inl e \<Rightarrow> Raised e
         | Inr count \<Rightarrow> Reply (count_reply count))
      else execute_find sv rq ''<pattern1> <pattern2>'')"

text \<open>
  The basic server matches in exact mode only: \<^verbatim>\<open>count_exact\<close>, and \<^verbatim>\<open>find_exact\<close> through
  \<^verbatim>\<open>handle_find\<close>, which is always given the index.
\<close>

definition execute_basic :: "server \<Rightarrow> request \<Rightarrow> outcome" where
  "execute_basic sv rq =
     (if rq_cmd rq = ''COUNT'' then
        (case count_exact (sv_hash sv) (sv_blooms sv) (sv_index sv) (rq_pattern rq) of
           Inl e \<Rightarrow> Raised e
         | Inr count \<Rightarrow> Reply (count_reply count))
      else execute_find sv (rq\<lparr>rq_mode := ''exact''\<rparr>) ''<p1> <p2>'')"

text \<open>A request as parsed, or the outcome of the request when it does not get that far.\<close>

definition parsed_threaded :: "server \<Rightarrow> string \<Rightarrow> outcome + request" where
  "parsed_threaded sv raw =
     (case read_command_threaded sv raw of
        Inl out \<Rightarrow> Inl out
      | Inr (cmd, rest) \<Rightarrow>
          (case parse_threaded (sv_default_mode sv) cmd rest of
             Inl e \<Rightarrow> Inl (Reply e)
           | Inr rq \<Rightarrow> Inr rq))"

definition parsed_basic :: "server \<Rightarrow> string \<Rightarrow> outcome + request" where
  "parsed_basic sv raw =
     (case read_command_basic sv raw of
        Inl out \<Rightarrow> Inl out
      | Inr (cmd, rest) \<Rightarrow>
          (case parse_basic cmd rest of
             Inl e \<Rightarrow> Inl (Reply e)
           | Inr rq \<Rightarrow> Inr rq))"

text \<open>One pass of the loop of \<^verbatim>\<open>handle_connection\<close>, and \<^verbatim>\<open>serve_once\<close>.\<close>

definition handle_connection :: "server \<Rightarrow> string \<Rightarrow> outcome" where
  "handle_connection sv raw =
     (case parsed_threaded sv raw of
        Inl out \<Rightarrow> out
      | Inr rq \<Rightarrow>
          (case guard sv rq of
             Some e \<Rightarrow> Reply e
           | None \<Rightarrow> execute_threaded sv rq))"

definition serve_once :: "server \<Rightarrow> string \<Rightarrow> outcome" where
  "serve_once sv raw =
     (case parsed_basic sv raw of
        Inl out \<Rightarrow> out
      | Inr rq \<Rightarrow>
          (case guard sv rq of
             Some e \<Rightarrow> Reply e
           | None \<Rightarrow> execute_basic sv rq))"

subsection \<open>Notions used in the statements\<close>

text \<open>The distinct elements of a list, in the order of their first occurrence.\<close>

definition first_occ :: "'a list \<Rightarrow> 'a list" where
  "first_occ xs = rev (remdups (rev xs))"

text \<open>The corpus indices of the words of length \<open>L\<close>, ascending: the bucket of \<open>L\<close>.\<close>

definition bucket_of :: "string list \<Rightarrow> nat \<Rightarrow> nat list" where
  "bucket_of ws L = filter (\<lambda>i. length (ws ! i) = L) [0..<length ws]"

text \<open>
  The corpus indices bucket by bucket, the lengths in the order in which they first occur in
  the corpus.
\<close>

definition bucket_order :: "string list \<Rightarrow> nat list" where
  "bucket_order ws = concat (map (bucket_of ws) (first_occ (map length ws)))"

text \<open>The indices that a scan with the bound \<open>min_len\<close> visits, in the order of the visit.\<close>

definition scanned :: "nat \<Rightarrow> (nat \<times> nat list) list \<Rightarrow> nat list" where
  "scanned min_len items = concat (map snd (filter (\<lambda>(L, idxs). \<not> L < min_len) items))"

text \<open>The sum that \<^verbatim>\<open>count_partial\<close> forms for a pattern of \<open>L\<close> question marks.\<close>

definition bucket_total :: "nat \<Rightarrow> (nat \<times> nat list) list \<Rightarrow> nat" where
  "bucket_total L items =
     sum_list (map (\<lambda>(LL, idxs). length idxs) (filter (\<lambda>(LL, idxs). L \<le> LL) items))"

text \<open>The item that a character of a wildcard pattern compiles to.\<close>

definition item_of :: "bool \<Rightarrow> char \<Rightarrow> rx_item" where
  "item_of allow_star ch =
     (if ch = CHR ''?'' then AnyChar
      else if ch = CHR ''*'' \<and> allow_star then AnyStar
      else Lit ch)"

text \<open>Two items that match the same characters.\<close>

definition item_eqv :: "rx_item \<Rightarrow> rx_item \<Rightarrow> bool" where
  "item_eqv a b =
     (case a of
        Lit c \<Rightarrow> (case b of Lit d \<Rightarrow> lower_char c = lower_char d | _ \<Rightarrow> False)
      | AnyChar \<Rightarrow> b = AnyChar
      | AnyStar \<Rightarrow> b = AnyStar)"

text \<open>The reply of the complexity guard and the reasons it gives.\<close>

definition too_complex_reply :: "string \<Rightarrow> string" where
  "too_complex_reply reason = bad_request (''pattern too complex: '' @ reason)"

definition reason_text :: "char \<Rightarrow> int \<Rightarrow> string" where
  "reason_text ch limit =
     ''too many '' @ [quote] @ [ch] @ [quote] @ '' wildcards (> '' @ str_int limit @ '')''"

subsection \<open>Example inputs\<close>

text \<open>
  A corpus with two word lengths, the corpus of the protocol tests, and a server on a
  corpus. The constant function stands for \<^verbatim>\<open>hash\<close>; \<open>rev\<close> and \<open>hex_encode\<close>, a codec
  that writes two letters for each byte, stand for gzip and Base64: both round-trip, and
  \<open>hex_encode\<close> never emits a newline. The letters and bigrams of every example pattern
  occur in the corpus, so that the pre-filter lets it pass under every hash function.
\<close>

definition example_words :: "string list" where
  "example_words = [''hello'', ''hi'', ''hurry'']"

definition spec_words :: "string list" where
  "spec_words = [''hello'', ''hallo'', ''hxllo'', ''heLLo'', ''world'', ''hell'', ''shell'']"

text \<open>
  Three words, of which \<^verbatim>\<open>str.lower\<close> lengthens the first: the capital I with a dot above
  (U+0130), \<open>ab\<close>, and the German word for street written with the sharp s (U+00DF).
  \<^typ>\<open>char\<close> has 256 values and U+0130 is not one of them: here \<open>dotted_I\<close> stands for
  U+0130 and \<open>combining_dot\<close> for U+0307. \<open>lower_dotted\<close> is \<^verbatim>\<open>str.lower\<close> on the code points
  of these words: U+0130 becomes \<open>i\<close> followed by U+0307, the sharp s stays.
\<close>

definition dotted_I :: char where
  "dotted_I = CHR 0xDD"

definition combining_dot :: char where
  "combining_dot = CHR 0xB7"

definition sharp_s :: char where
  "sharp_s = CHR 0xDF"

definition lower_dotted :: "string \<Rightarrow> string" where
  "lower_dotted s =
     concat (map (\<lambda>c. if c = dotted_I then [CHR ''i'', combining_dot] else [lower_char c]) s)"

definition dotted_words :: "string list" where
  "dotted_words = [[dotted_I], ''ab'', ''Stra'' @ [sharp_s] @ ''e'']"

definition hex_digit :: "nat \<Rightarrow> char" where
  "hex_digit k = char_of (97 + k)"

fun hex_encode :: "string \<Rightarrow> string" where
  "hex_encode [] = []"
| "hex_encode (c # cs) =
     hex_digit (of_char c div 16) # hex_digit (of_char c mod 16) # hex_encode cs"

fun hex_decode :: "string \<Rightarrow> string" where
  "hex_decode (a # b # cs) =
     char_of ((of_char a - 97) * 16 + (of_char b - (97::nat))) # hex_decode cs"
| "hex_decode cs = []"

definition example_server :: "string list \<Rightarrow> string \<Rightarrow> server" where
  "example_server ws default_mode =
     \<lparr>sv_hash = (\<lambda>s. 0), sv_blooms = init_blooms (\<lambda>s. 0) (map lower ws) blooms_initial,
      sv_index = WordIndex_init ws, sv_default_mode = default_mode, sv_max_pattern_length = 1000,
      sv_max_questions = 5000, sv_max_stars = 50, sv_pressure = False, sv_stats_reply = [],
      sv_json_loads = (\<lambda>s. None), sv_gzip = rev, sv_b64encode = hex_encode\<rparr>"

definition count_request :: request where
  "count_request =
     \<lparr>rq_cmd = ''COUNT'', rq_pattern = ''h?llo'', rq_mode = ''exact'', rq_gzip = False,
      rq_offset = 0, rq_limit = None\<rparr>"

definition pressed_server :: server where
  "pressed_server = (example_server spec_words ''exact'')\<lparr>sv_max_questions := 2, sv_pressure := True\<rparr>"

definition two_question_request :: request where
  "two_question_request =
     \<lparr>rq_cmd = ''FIND'', rq_pattern = ''h??lo'', rq_mode = ''exact'', rq_gzip = False,
      rq_offset = 0, rq_limit = None\<rparr>"

definition empty_page_request :: request where
  "empty_page_request =
     \<lparr>rq_cmd = ''FIND'', rq_pattern = ''h?llo'', rq_mode = ''exact'', rq_gzip = False,
      rq_offset = 9, rq_limit = Some 2\<rparr>"

definition gzip_server :: server where
  "gzip_server = example_server spec_words ''partial''"

definition gzip_request :: request where
  "gzip_request =
     \<lparr>rq_cmd = ''FIND'', rq_pattern = ''ell'', rq_mode = ''partial'', rq_gzip = True,
      rq_offset = 0, rq_limit = None\<rparr>"

section \<open>Properties\<close>

subsection \<open>The filter has no false negatives\<close>

lemma bit_test_iff: "(drop_bit n (b::int)) AND 1 = 0 \<longleftrightarrow> \<not> bit b n"
  by (simp add: and_one_eq bit_iff_odd_drop_bit even_iff_mod_2_eq_zero)

lemma all_bits_set_iff: "all_bits_set bs hs \<longleftrightarrow> list_all (\<lambda>h. bit bs (nat h)) hs"
  by (induction hs) (simp_all add: bit_test_iff)

lemma fold_set_mask: "b_mask (fold (\<lambda>h b'. b'\<lparr>b_bits := b_bits b' OR push_bit (nat h) 1\<rparr>) hs b) = b_mask b"
  by (induction hs arbitrary: b) simp_all

lemma fold_set_bits:
  "bit (b_bits (fold (\<lambda>h b'. b'\<lparr>b_bits := b_bits b' OR push_bit (nat h) 1\<rparr>) hs b)) n
     \<longleftrightarrow> bit (b_bits b) n \<or> n \<in> nat ` set hs"
  by (induction hs arbitrary: b) (auto simp: bit_or_iff bit_exp_iff)

lemma mask_add [simp]: "b_mask (add hsh s b) = b_mask b"
  unfolding add_def by (rule fold_set_mask)

lemma hashes_add [simp]: "hashes hsh (add hsh s b) t = hashes hsh b t"
  by (simp add: hashes_def)

lemma bit_add: "bit (b_bits (add hsh s b)) n \<longleftrightarrow> bit (b_bits b) n \<or> n \<in> nat ` set (hashes hsh b s)"
  unfolding add_def by (rule fold_set_bits)

lemma maybe_contains_add_same: "maybe_contains hsh (add hsh s b) s"
  by (simp add: maybe_contains_def all_bits_set_iff list_all_iff bit_add)

lemma maybe_contains_add_mono: "maybe_contains hsh b t \<Longrightarrow> maybe_contains hsh (add hsh s b) t"
  by (simp add: maybe_contains_def all_bits_set_iff list_all_iff bit_add)

lemma maybe_contains_add_all: "s \<in> set ss \<or> maybe_contains hsh b s \<Longrightarrow> maybe_contains hsh (add_all hsh ss b) s"
  unfolding add_all_def
proof (induction ss arbitrary: b)
  case Nil
  then show ?case by simp
next
  case (Cons x xs)
  have "s \<in> set xs \<or> maybe_contains hsh (add hsh x b) s"
    using Cons.prems maybe_contains_add_same maybe_contains_add_mono by auto
  then show ?case using Cons.IH by simp
qed

text \<open>
  C7. Whatever the hash function and the earlier content of the filter: once \<open>s\<close> was added,
  every later \<open>maybe_contains s\<close> is true, after any further additions \<open>later\<close>; so a
  false answer means that \<open>s\<close> was never added.
\<close>

theorem bloom_no_false_negatives:
  "s \<in> set ss \<Longrightarrow>
     maybe_contains hsh (add_all hsh later (add_all hsh ss (SimpleBloom_init k))) s"
  by (rule maybe_contains_add_all, rule disjI2, rule maybe_contains_add_all, rule disjI1)

theorem bloom_no_false_negatives_witness:
  "''ab'' \<in> set [''ab'', ''c''] \<and>
   maybe_contains (\<lambda>s. int (length s) - 7) (add_all (\<lambda>s. int (length s) - 7) [''zz'']
     (add_all (\<lambda>s. int (length s) - 7) [''ab'', ''c''] (SimpleBloom_init 16))) ''ab''"
  using bloom_no_false_negatives [of "''ab''" "[''ab'', ''c'']" "\<lambda>s. int (length s) - 7" "[''zz'']" 16]
  by simp

subsection \<open>The length buckets and the position index\<close>

lemma first_occ_snoc: "first_occ (xs @ [x]) = (if x \<in> set xs then first_occ xs else first_occ xs @ [x])"
  by (simp add: first_occ_def)

lemma set_first_occ [simp]: "set (first_occ xs) = set xs"
  by (simp add: first_occ_def)

lemma distinct_first_occ [simp]: "distinct (first_occ xs)"
  by (simp add: first_occ_def)

lemma setdefault_append_map:
  "distinct ks \<Longrightarrow>
   setdefault_append (map (\<lambda>k. (k, f k)) ks) L i =
     (if L \<in> set ks then map (\<lambda>k. (k, if k = L then f k @ [i] else f k)) ks
      else map (\<lambda>k. (k, f k)) ks @ [(L, [i])])"
  by (induction ks) auto

lemma bucket_of_snoc:
  "bucket_of (xs @ [x]) L = bucket_of xs L @ (if length x = L then [length xs] else [])"
proof -
  have "filter (\<lambda>i. length ((xs @ [x]) ! i) = L) [0..<length xs] = filter (\<lambda>i. length (xs ! i) = L) [0..<length xs]"
    by (rule filter_cong) (simp_all add: nth_append)
  then show ?thesis by (simp add: bucket_of_def)
qed

lemma bucket_of_empty: "L \<notin> length ` set ws \<Longrightarrow> bucket_of ws L = []"
  by (auto simp: bucket_of_def filter_empty_conv)

lemma build_len_to_indices_snoc:
  "build_len_to_indices (xs @ [x]) = setdefault_append (build_len_to_indices xs) (length x) (length xs)"
  by (simp add: build_len_to_indices_def enumerate_append_eq)

lemma build_len_to_indices_eq:
  "build_len_to_indices wls = map (\<lambda>L. (L, bucket_of wls L)) (first_occ (map length wls))"
proof (induction wls rule: rev_induct)
  case Nil
  show ?case by (simp add: build_len_to_indices_def first_occ_def)
next
  case (snoc x xs)
  show ?case
  proof (cases "length x \<in> length ` set xs")
    case True
    then show ?thesis
      by (simp add: build_len_to_indices_snoc snoc.IH setdefault_append_map first_occ_snoc bucket_of_snoc)
  next
    case False
    then show ?thesis
      by (auto simp: build_len_to_indices_snoc snoc.IH setdefault_append_map first_occ_snoc bucket_of_snoc bucket_of_empty)
  qed
qed

lemma length_lower [simp]: "length (lower w) = length w"
  by (simp add: lower_def)

lemma bucket_of_lower [simp]: "bucket_of (map lower ws) L = bucket_of ws L"
  unfolding bucket_of_def by (rule filter_cong) simp_all

lemma len_to_indices_init:
  "len_to_indices (WordIndex_init ws) = map (\<lambda>L. (L, bucket_of ws L)) (first_occ (map length ws))"
proof -
  have "map length (map lower ws) = map length ws" by simp
  then show ?thesis
    by (simp add: WordIndex_init_def WordIndex_with_def Let_def build_len_to_indices_eq del: map_map)
qed

lemma map_of_keyed: "map_of (map (\<lambda>k. (k, f k)) ks) L = (if L \<in> set ks then Some (f L) else None)"
  by (induction ks) auto

lemma lookup_init:
  "map_of (len_to_indices (WordIndex_init ws)) L =
     (if L \<in> length ` set ws then Some (bucket_of ws L) else None)"
  by (simp add: len_to_indices_init map_of_keyed)

lemma bucket_of_sorted: "sorted_wrt (<) (bucket_of ws L)"
  by (simp add: bucket_of_def sorted_wrt_filter)

lemma bucket_of_in_range: "i \<in> set (bucket_of ws L) \<Longrightarrow> i < length ws \<and> length (ws ! i) = L"
  by (simp add: bucket_of_def)

lemma concat_buckets_in_range:
  "i \<in> set (concat (map snd (len_to_indices (WordIndex_init ws)))) \<Longrightarrow> i < length ws"
  by (auto simp: len_to_indices_init dest: bucket_of_in_range)

text \<open>The position index has an entry of the right length for every bucket.\<close>

lemma length_add_position [simp]: "length (add_position i pc bp) = length bp"
  by (simp add: add_position_def Let_def split: prod.splits)

lemma length_fold_add_position [simp]: "length (fold (add_position i) pcs bp) = length bp"
  by (induction pcs arbitrary: bp) simp_all

lemma length_build_by_pos [simp]: "length (build_by_pos wls L idxs) = L"
proof -
  have "length (fold (\<lambda>i bp. fold (add_position i) (enumerate 0 (wls ! i)) bp) idxs bp0) = length bp0"
    for bp0 by (induction idxs arbitrary: bp0) simp_all
  then show ?thesis by (simp add: build_by_pos_def)
qed

lemma fold_pos_defined:
  "(\<And>bp. m L = Some bp \<Longrightarrow> length bp = L) \<Longrightarrow> L \<in> fst ` set items \<or> m L \<noteq> None \<Longrightarrow>
   \<exists>bp. fold (\<lambda>(L, idxs) m. m(L \<mapsto> build_by_pos wls L idxs)) items m L = Some bp \<and> length bp = L"
proof (induction items arbitrary: m)
  case Nil
  then show ?case by auto
next
  case (Cons a items)
  obtain k v where a: "a = (k, v)" by (cases a)
  show ?case unfolding a fold_simps prod.case
  proof (rule Cons.IH)
    fix bp assume "(m(k \<mapsto> build_by_pos wls k v)) L = Some bp"
    then show "length bp = L" using Cons.prems(1) by (auto split: if_splits)
  next
    show "L \<in> fst ` set items \<or> (m(k \<mapsto> build_by_pos wls k v)) L \<noteq> None"
      using Cons.prems(2) a by auto
  qed
qed

lemma pos_char_index_defined:
  "L \<in> length ` set ws \<Longrightarrow> \<exists>bp. pos_char_index (WordIndex_init ws) L = Some bp \<and> length bp = L"
proof -
  assume L: "L \<in> length ` set ws"
  have "L \<in> fst ` set (build_len_to_indices (map lower ws))"
    using L by (force simp: build_len_to_indices_eq image_iff)
  then have "\<exists>bp. fold (\<lambda>(L, idxs) m. m(L \<mapsto> build_by_pos (map lower ws) L idxs))
           (build_len_to_indices (map lower ws)) Map.empty L = Some bp \<and> length bp = L"
    by (intro fold_pos_defined) simp_all
  then show ?thesis
    by (simp add: WordIndex_init_def WordIndex_with_def Let_def build_pos_char_index_def)
qed

lemma intersect_fixed_ok:
  "\<forall>pc \<in> set fps. fst pc < length bp \<Longrightarrow> fps \<noteq> [] \<or> cand \<noteq> None \<Longrightarrow>
   intersect_fixed bp fps cand = Inr None \<or> (\<exists>c. intersect_fixed bp fps cand = Inr (Some (Some c)))"
proof (induction fps arbitrary: cand)
  case Nil
  then show ?case by auto
next
  case (Cons a fps)
  obtain pos ch where a: "a = (pos, ch)" by (cases a)
  show ?case using Cons.prems(1) a Cons.IH by (auto simp: Let_def)
qed

lemma exact_indices_ok:
  "\<exists>is. exact_indices_via_pos_index (WordIndex_init ws) p = Inr is \<and>
        subseq is (bucket_of ws (length p))"
proof (cases "length p \<in> length ` set ws")
  case False
  then show ?thesis by (simp add: exact_indices_via_pos_index_def lookup_init)
next
  case True
  obtain bp where bp: "pos_char_index (WordIndex_init ws) (length p) = Some bp" "length bp = length p"
    using pos_char_index_defined [OF True] by blast
  let ?fps = "filter (\<lambda>(i, c). c \<noteq> CHR ''?'') (enumerate 0 (lower p))"
  have rng: "\<forall>pc \<in> set ?fps. fst pc < length bp"
    by (auto simp: bp in_set_enumerate_eq)
  show ?thesis
  proof (cases "?fps = []")
    case True
    then show ?thesis using \<open>length p \<in> length ` set ws\<close>
      by (simp add: exact_indices_via_pos_index_def lookup_init Let_def)
  next
    case False
    from intersect_fixed_ok [OF rng, of None] False
    consider "intersect_fixed bp ?fps None = Inr None"
      | c where "intersect_fixed bp ?fps None = Inr (Some (Some c))" by auto
    then show ?thesis
    proof cases
      case 1
      then show ?thesis using False True bp
        by (simp add: exact_indices_via_pos_index_def lookup_init Let_def)
    next
      case 2
      then show ?thesis using False True bp
        by (simp add: exact_indices_via_pos_index_def lookup_init Let_def)
    qed
  qed
qed

lemma words_at_ok: "\<forall>i \<in> set is. i < length ws \<Longrightarrow> words_at ws is = Inr (map ((!) ws) is)"
  by (induction "is") simp_all

lemma scan_bucket_find_ok:
  "\<forall>i \<in> set is. i < length ws \<Longrightarrow>
   scan_bucket_find P ws is acc = Inr (acc @ map ((!) ws) (filter (\<lambda>i. P (ws ! i)) is))"
  by (induction "is" arbitrary: acc) simp_all

lemma scan_bucket_count_ok:
  "\<forall>i \<in> set is. i < length ws \<Longrightarrow>
   scan_bucket_count P ws is cnt = Inr (cnt + length (filter (\<lambda>i. P (ws ! i)) is))"
  by (induction "is" arbitrary: cnt) simp_all

lemma scanned_Cons:
  "scanned m ((L, idxs) # rest) = (if L < m then scanned m rest else idxs @ scanned m rest)"
  by (simp add: scanned_def)

lemma scan_find_ok:
  "\<forall>i \<in> set (concat (map snd items)). i < length ws \<Longrightarrow>
   scan_find P ws m items acc = Inr (acc @ map ((!) ws) (filter (\<lambda>i. P (ws ! i)) (scanned m items)))"
proof (induction items arbitrary: acc)
  case Nil
  then show ?case by (simp add: scanned_def)
next
  case (Cons a items)
  obtain L idxs where a: "a = (L, idxs)" by (cases a)
  have 1: "\<forall>i \<in> set idxs. i < length ws" and 2: "\<forall>i \<in> set (concat (map snd items)). i < length ws"
    using Cons.prems a by auto
  show ?case unfolding a
    by (simp add: scanned_Cons scan_bucket_find_ok [OF 1] Cons.IH [OF 2])
qed

lemma scan_count_ok:
  "\<forall>i \<in> set (concat (map snd items)). i < length ws \<Longrightarrow>
   scan_count P ws m items cnt = Inr (cnt + length (filter (\<lambda>i. P (ws ! i)) (scanned m items)))"
proof (induction items arbitrary: cnt)
  case Nil
  then show ?case by (simp add: scanned_def)
next
  case (Cons a items)
  obtain L idxs where a: "a = (L, idxs)" by (cases a)
  have 1: "\<forall>i \<in> set idxs. i < length ws" and 2: "\<forall>i \<in> set (concat (map snd items)). i < length ws"
    using Cons.prems a by auto
  show ?case unfolding a
    by (simp add: scanned_Cons scan_bucket_count_ok [OF 1] Cons.IH [OF 2])
qed

subsection \<open>The generated expressions compile\<close>

lemma escape_char_hd:
  "allow \<or> c \<noteq> CHR ''*'' \<Longrightarrow> escape_char allow c \<noteq> [] \<and> hd (escape_char allow c) \<noteq> CHR ''*''"
  by (auto simp: escape_char_def backslash_def)

lemma body_hd:
  assumes "allow \<or> CHR ''*'' \<notin> set p" "rest = [] \<or> hd rest \<noteq> CHR ''*''"
  shows "concat (map (escape_char allow) p) @ rest = [] \<or>
         hd (concat (map (escape_char allow) p) @ rest) \<noteq> CHR ''*''"
proof (cases p)
  case Nil
  then show ?thesis using assms(2) by simp
next
  case (Cons c cs)
  then have "allow \<or> c \<noteq> CHR ''*''" using assms(1) by auto
  from escape_char_hd [OF this] show ?thesis using Cons by (simp add: hd_append)
qed

lemma re_parse_escape:
  assumes "allow \<or> c \<noteq> CHR ''*''" "cs = [] \<or> hd cs \<noteq> CHR ''*''"
  shows "re_parse (escape_char allow c @ cs) = map_option ((#) (item_of allow c)) (re_parse cs)"
proof -
  consider (meta) "c \<in> set regex_meta" | (q) "c = CHR ''?''" | (star) "c = CHR ''*''" "allow"
    | (plain) "c \<notin> set regex_meta" "c \<noteq> CHR ''?''" "c \<noteq> CHR ''*''"
    using assms(1) by blast
  then show ?thesis
  proof cases
    case meta
    then have "c \<noteq> CHR ''?''" "c \<noteq> CHR ''*''" by (auto simp: regex_meta_def backslash_def)
    then show ?thesis using meta by (simp add: escape_char_def item_of_def)
  next
    case q
    then have "c \<notin> set regex_meta" by (simp add: regex_meta_def backslash_def)
    then show ?thesis using q assms(2) by (auto simp: escape_char_def item_of_def backslash_def)
  next
    case star
    then have "c \<notin> set regex_meta" by (simp add: regex_meta_def backslash_def)
    then show ?thesis using star by (simp add: escape_char_def item_of_def backslash_def)
  next
    case plain
    then show ?thesis by (simp add: escape_char_def item_of_def regex_meta_def backslash_def)
  qed
qed

lemma re_parse_body:
  "allow \<or> CHR ''*'' \<notin> set p \<Longrightarrow> rest = [] \<or> hd rest \<noteq> CHR ''*'' \<Longrightarrow>
   re_parse (concat (map (escape_char allow) p) @ rest) =
     map_option ((@) (map (item_of allow) p)) (re_parse rest)"
proof (induction p)
  case Nil
  show ?case by (simp add: option.map_ident)
next
  case (Cons c cs)
  have a: "allow \<or> c \<noteq> CHR ''*''" and b: "allow \<or> CHR ''*'' \<notin> set cs"
    using Cons.prems(1) by auto
  have hd: "concat (map (escape_char allow) cs) @ rest = [] \<or>
            hd (concat (map (escape_char allow) cs) @ rest) \<noteq> CHR ''*''"
    by (rule body_hd [OF b Cons.prems(2)])
  show ?case
    using re_parse_escape [OF a hd] Cons.IH [OF b Cons.prems(2)]
    by (simp add: option.map_comp comp_def)
qed

lemma compile_exact_ok:
  "compile_regex_body (wildcard_to_regex_body p True False) True =
     Inr \<lparr>rx_anchored = True, rx_items = map (item_of True) p\<rparr>"
  using re_parse_body [of True p "[]"]
  by (simp add: compile_regex_body_def wildcard_to_regex_body_def)

lemma re_parse_dotstar: "re_parse (''.*'' @ cs) = map_option ((#) AnyStar) (re_parse cs)"
  by (simp add: backslash_def)

lemma compile_partial_ok:
  assumes "allow \<or> CHR ''*'' \<notin> set p"
  shows "compile_regex_body (wildcard_to_regex_body p allow True) False =
     Inr \<lparr>rx_anchored = False, rx_items = AnyStar # map (item_of allow) p @ [AnyStar]\<rparr>"
proof -
  have tail: "re_parse ''.*'' = Some [AnyStar]"
    using re_parse_dotstar [of "[]"] by simp
  have "re_parse (concat (map (escape_char allow) p) @ ''.*'') = Some (map (item_of allow) p @ [AnyStar])"
    using re_parse_body [OF assms, of "''.*''"] tail by simp
  then have "re_parse (''.*'' @ concat (map (escape_char allow) p) @ ''.*'') =
             Some (AnyStar # map (item_of allow) p @ [AnyStar])"
    by (simp only: re_parse_dotstar option.map)
  then show ?thesis
    by (simp only: compile_regex_body_def wildcard_to_regex_body_def Let_def if_True option.case)
qed

subsection \<open>Counting and listing\<close>

lemma bucket_total_setdefault_append:
  "bucket_total L (setdefault_append d k i) = bucket_total L d + (if L \<le> k then 1 else 0)"
  by (induction d k i rule: setdefault_append.induct) (auto simp: bucket_total_def)

lemma bucket_total_build:
  "bucket_total L (build_len_to_indices wls) = length (filter (\<lambda>w. L \<le> length w) wls)"
proof (induction wls rule: rev_induct)
  case Nil
  show ?case by (simp add: build_len_to_indices_def bucket_total_def)
next
  case (snoc x xs)
  then show ?case by (simp add: build_len_to_indices_snoc bucket_total_setdefault_append)
qed

lemma bucket_total_init:
  "bucket_total L (len_to_indices (WordIndex_init ws)) = length (filter (\<lambda>w. L \<le> length w) ws)"
proof -
  have "filter (\<lambda>w. L \<le> length w) (map lower ws) = map lower (filter (\<lambda>w. L \<le> length w) ws)"
    by (simp add: filter_map comp_def)
  then show ?thesis
    by (simp add: WordIndex_init_def WordIndex_with_def Let_def bucket_total_build)
qed

lemma words_init [simp]: "words (WordIndex_init ws) = ws"
  by (simp add: WordIndex_init_def WordIndex_with_def Let_def)

lemma subseq_in_range:
  assumes "subseq ixs (bucket_of ws L)"
  shows "\<forall>i \<in> set ixs. i < length ws"
proof
  fix i assume "i \<in> set ixs"
  from list_emb_set [OF assms this] obtain j where "j \<in> set (bucket_of ws L)" "i = j"
    by blast
  then show "i < length ws" using bucket_of_in_range by blast
qed

text \<open>
  On the index of ASCII words, where the lowering keeps the length of every word, each
  search returns, and the counting variant returns the length of the list.
\<close>

lemma exact_agree:
  "\<exists>ms. find_exact hsh g (WordIndex_init ws) p = Inr ms \<and>
        count_exact hsh g (WordIndex_init ws) p = Inr (length ms)"
proof -
  consider (skip) "should_skip_pattern hsh g p"
    | (nostar) "\<not> should_skip_pattern hsh g p" "CHR ''*'' \<notin> set p"
    | (star) "\<not> should_skip_pattern hsh g p" "CHR ''*'' \<in> set p" by blast
  then show ?thesis
  proof cases
    case skip
    then show ?thesis by (simp add: find_exact_def count_exact_def)
  next
    case nostar
    obtain ixs where ixs: "exact_indices_via_pos_index (WordIndex_init ws) p = Inr ixs"
      "subseq ixs (bucket_of ws (length p))" using exact_indices_ok by blast
    have "words_at ws ixs = Inr (map ((!) ws) ixs)"
      by (rule words_at_ok) (rule subseq_in_range [OF ixs(2)])
    then show ?thesis using nostar ixs(1) by (simp add: find_exact_def count_exact_def)
  next
    case star
    have rng: "\<forall>i \<in> set (concat (map snd (len_to_indices (WordIndex_init ws)))). i < length ws"
      using concat_buckets_in_range by blast
    show ?thesis using star
      by (simp add: find_exact_def count_exact_def compile_exact_ok
            scan_find_ok [OF rng] scan_count_ok [OF rng])
  qed
qed

lemma partial_agree:
  "\<exists>ms. find_partial hsh g (WordIndex_init ws) p = Inr ms \<and>
        count_partial hsh g (WordIndex_init ws) p = Inr (length ms)"
proof -
  have rng: "\<forall>i \<in> set (concat (map snd (len_to_indices (WordIndex_init ws)))). i < length ws"
    using concat_buckets_in_range by blast
  consider (skip) "should_skip_pattern hsh g p"
    | (allq) "\<not> should_skip_pattern hsh g p" "CHR ''*'' \<notin> set p" "list_all (\<lambda>ch. ch = CHR ''?'') p"
    | (nostar) "\<not> should_skip_pattern hsh g p" "CHR ''*'' \<notin> set p" "\<not> list_all (\<lambda>ch. ch = CHR ''?'') p"
    | (star) "\<not> should_skip_pattern hsh g p" "CHR ''*'' \<in> set p" by blast
  then show ?thesis
  proof cases
    case skip
    then show ?thesis by (simp add: find_partial_def count_partial_def)
  next
    case allq
    have "count_partial hsh g (WordIndex_init ws) p =
            Inr (bucket_total (length p) (len_to_indices (WordIndex_init ws)))"
      using allq by (simp add: count_partial_def bucket_total_def Let_def)
    then show ?thesis using allq
      by (simp add: find_partial_def bucket_total_init Let_def)
  next
    case nostar
    have c: "compile_regex_body (wildcard_to_regex_body p False True) False =
               Inr \<lparr>rx_anchored = False, rx_items = AnyStar # map (item_of False) p @ [AnyStar]\<rparr>"
      by (rule compile_partial_ok) (simp add: nostar)
    show ?thesis using nostar
      by (simp add: find_partial_def count_partial_def c Let_def
            scan_find_ok [OF rng] scan_count_ok [OF rng])
  next
    case star
    have c: "compile_regex_body (wildcard_to_regex_body p True True) False =
               Inr \<lparr>rx_anchored = False, rx_items = AnyStar # map (item_of True) p @ [AnyStar]\<rparr>"
      by (rule compile_partial_ok) simp
    show ?thesis using star
      by (simp add: find_partial_def count_partial_def c
            scan_find_ok [OF rng] scan_count_ok [OF rng])
  qed
qed

text \<open>
  C2 fails on the code for a word that \<^verbatim>\<open>str.lower\<close> lengthens. The constructor keys the
  buckets by the length of the lowered word; for a pattern of question marks
  \<^verbatim>\<open>find_partial\<close> filters \<^verbatim>\<open>self.words\<close> by the length of the word itself, and
  \<^verbatim>\<open>count_partial\<close> sums the sizes of the buckets. On the three words of \<open>dotted_words\<close> and
  the pattern \<open>??\<close> the list has two words and the count is 3. The pattern has no literal
  character, so that neither the filters nor the hash decide the result.
\<close>

theorem count_partial_differs_from_find:
  "find_partial (\<lambda>s. 0) (init_blooms (\<lambda>s. 0) (map lower_dotted dotted_words) blooms_initial)
     (WordIndex_with lower_dotted dotted_words) ''??'' =
     Inr [''ab'', ''Stra'' @ [sharp_s] @ ''e''] \<and>
   count_partial (\<lambda>s. 0) (init_blooms (\<lambda>s. 0) (map lower_dotted dotted_words) blooms_initial)
     (WordIndex_with lower_dotted dotted_words) ''??'' = Inr 3"
  by code_simp

text \<open>
  C9. The pre-filter skips the empty pattern, so that the four searches return the empty
  list or zero on every index, in partial mode too.
\<close>

theorem empty_pattern_matches_nothing:
  "find_exact hsh g idx [] = Inr [] \<and> count_exact hsh g idx [] = Inr 0 \<and>
   find_partial hsh g idx [] = Inr [] \<and> count_partial hsh g idx [] = Inr 0 \<and>
   should_skip_pattern hsh g []"
  by (simp add: find_exact_def count_exact_def find_partial_def count_partial_def
        should_skip_pattern_def)

subsection \<open>The order of the results\<close>

lemma buckets_concat: "concat (map snd (len_to_indices (WordIndex_init ws))) = bucket_order ws"
  by (simp add: len_to_indices_init bucket_order_def comp_def)

lemma subseq_scanned: "subseq (scanned m items) (concat (map snd items))"
proof (induction items)
  case Nil
  show ?case by (simp add: scanned_def)
next
  case (Cons a items)
  obtain L idxs where a: "a = (L, idxs)" by (cases a)
  show ?case unfolding a using Cons.IH
    by (auto simp: scanned_Cons intro: list_emb_append2 list_emb_append_mono)
qed

lemma subseq_concat_member: "x \<in> set xss \<Longrightarrow> subseq x (concat xss)"
proof (induction xss)
  case Nil
  then show ?case by simp
next
  case (Cons y xss)
  then show ?case by (auto intro: list_emb_append2 list_emb_prefix)
qed

lemma subseq_bucket_order: "subseq (bucket_of ws L) (bucket_order ws)"
proof (cases "L \<in> length ` set ws")
  case True
  then have "bucket_of ws L \<in> set (map (bucket_of ws) (first_occ (map length ws)))" by simp
  then show ?thesis unfolding bucket_order_def by (rule subseq_concat_member)
next
  case False
  then show ?thesis by (simp add: bucket_of_empty)
qed

lemma subseq_bucket_upt: "subseq (bucket_of ws L) [0..<length ws]"
  by (simp add: bucket_of_def)

lemma scan_find_init:
  "\<exists>ixs. scan_find P ws m (len_to_indices (WordIndex_init ws)) [] = Inr (map ((!) ws) ixs) \<and>
         subseq ixs (bucket_order ws)"
proof -
  let ?items = "len_to_indices (WordIndex_init ws)"
  have rng: "\<forall>i \<in> set (concat (map snd ?items)). i < length ws"
    using concat_buckets_in_range by blast
  have "subseq (filter (\<lambda>i. P (ws ! i)) (scanned m ?items)) (scanned m ?items)" by simp
  also have "subseq (scanned m ?items) (bucket_order ws)"
    using subseq_scanned [of m ?items] by (simp add: buckets_concat)
  finally show ?thesis using scan_find_ok [OF rng, of P m "[]"] by auto
qed

lemma filter_by_index: "filter P ws = map ((!) ws) (filter (\<lambda>i. P (ws ! i)) [0..<length ws])"
proof -
  have "filter P (map ((!) ws) [0..<length ws]) = map ((!) ws) (filter (\<lambda>i. P (ws ! i)) [0..<length ws])"
    by (simp add: filter_map comp_def)
  then show ?thesis by (simp add: map_nth)
qed

lemma find_exact_order:
  "\<exists>ixs. find_exact hsh g (WordIndex_init ws) p = Inr (map ((!) ws) ixs) \<and>
         subseq ixs (if CHR ''*'' \<notin> set p then [0..<length ws] else bucket_order ws)"
proof -
  consider (skip) "should_skip_pattern hsh g p"
    | (nostar) "\<not> should_skip_pattern hsh g p" "CHR ''*'' \<notin> set p"
    | (star) "\<not> should_skip_pattern hsh g p" "CHR ''*'' \<in> set p" by blast
  then show ?thesis
  proof cases
    case skip
    then have "find_exact hsh g (WordIndex_init ws) p = Inr (map ((!) ws) [])"
      by (simp add: find_exact_def)
    then show ?thesis by (metis list_emb_Nil)
  next
    case nostar
    obtain ixs where ixs: "exact_indices_via_pos_index (WordIndex_init ws) p = Inr ixs"
      "subseq ixs (bucket_of ws (length p))" using exact_indices_ok by blast
    have "words_at ws ixs = Inr (map ((!) ws) ixs)"
      by (rule words_at_ok) (rule subseq_in_range [OF ixs(2)])
    then have "find_exact hsh g (WordIndex_init ws) p = Inr (map ((!) ws) ixs)"
      using nostar ixs(1) by (simp add: find_exact_def)
    moreover have "subseq ixs [0..<length ws]"
      using ixs(2) subseq_bucket_upt by (rule subseq_order.trans)
    ultimately show ?thesis using nostar by auto
  next
    case star
    then show ?thesis using scan_find_init
      by (simp add: find_exact_def compile_exact_ok)
  qed
qed

lemma find_partial_order:
  "\<exists>ixs. find_partial hsh g (WordIndex_init ws) p = Inr (map ((!) ws) ixs) \<and>
         subseq ixs (if CHR ''*'' \<notin> set p \<and> list_all (\<lambda>ch. ch = CHR ''?'') p
                     then [0..<length ws] else bucket_order ws)"
proof -
  consider (skip) "should_skip_pattern hsh g p"
    | (allq) "\<not> should_skip_pattern hsh g p" "CHR ''*'' \<notin> set p" "list_all (\<lambda>ch. ch = CHR ''?'') p"
    | (nostar) "\<not> should_skip_pattern hsh g p" "CHR ''*'' \<notin> set p" "\<not> list_all (\<lambda>ch. ch = CHR ''?'') p"
    | (star) "\<not> should_skip_pattern hsh g p" "CHR ''*'' \<in> set p" by blast
  then show ?thesis
  proof cases
    case skip
    then have "find_partial hsh g (WordIndex_init ws) p = Inr (map ((!) ws) [])"
      by (simp add: find_partial_def)
    then show ?thesis by (metis list_emb_Nil)
  next
    case allq
    let ?ixs = "filter (\<lambda>i. length p \<le> length (ws ! i)) [0..<length ws]"
    have "find_partial hsh g (WordIndex_init ws) p = Inr (map ((!) ws) ?ixs)"
      using allq filter_by_index [of "\<lambda>w. length p \<le> length w" ws]
      by (simp add: find_partial_def Let_def)
    moreover have "subseq ?ixs [0..<length ws]" by simp
    ultimately show ?thesis using allq by auto
  next
    case nostar
    have c: "compile_regex_body (wildcard_to_regex_body p False True) False =
               Inr \<lparr>rx_anchored = False, rx_items = AnyStar # map (item_of False) p @ [AnyStar]\<rparr>"
      by (rule compile_partial_ok) (simp add: nostar)
    show ?thesis using nostar scan_find_init
      by (simp add: find_partial_def c Let_def)
  next
    case star
    have c: "compile_regex_body (wildcard_to_regex_body p True True) False =
               Inr \<lparr>rx_anchored = False, rx_items = AnyStar # map (item_of True) p @ [AnyStar]\<rparr>"
      by (rule compile_partial_ok) simp
    show ?thesis using star scan_find_init
      by (simp add: find_partial_def c)
  qed
qed

lemma paginate_map:
  "paginate offset (Some lim) (map f xs) = map f (take (nat (max 0 lim)) (drop (nat (max 0 offset)) xs))"
  by (simp add: paginate_def Let_def take_map drop_map max_def)

text \<open>
  C1, as the code has it. Each search returns the words at a sequence \<open>ixs\<close> of corpus
  indices. For an exact pattern without \<open>*\<close> and for a partial pattern made of \<open>?\<close> only,
  \<open>ixs\<close> is ascending. For every other pattern the words come bucket by bucket: the word
  lengths in the order of their first occurrence in the corpus, and ascending corpus index
  within one length (\<open>bucket_order\<close>). The page for \<^verbatim>\<open>RANGE offset lim\<close> is the words at the
  contiguous slice of \<open>ixs\<close> from \<open>offset\<close>, of length at most \<open>lim\<close>.
\<close>

theorem result_order:
  "(\<exists>ixs. find_exact hsh g (WordIndex_init ws) p = Inr (map ((!) ws) ixs) \<and>
          subseq ixs (if CHR ''*'' \<notin> set p then [0..<length ws] else bucket_order ws) \<and>
          paginate offset (Some lim) (map ((!) ws) ixs) =
            map ((!) ws) (take (nat (max 0 lim)) (drop (nat (max 0 offset)) ixs))) \<and>
   (\<exists>ixs. find_partial hsh g (WordIndex_init ws) p = Inr (map ((!) ws) ixs) \<and>
          subseq ixs (if CHR ''*'' \<notin> set p \<and> list_all (\<lambda>ch. ch = CHR ''?'') p
                      then [0..<length ws] else bucket_order ws) \<and>
          paginate offset (Some lim) (map ((!) ws) ixs) =
            map ((!) ws) (take (nat (max 0 lim)) (drop (nat (max 0 offset)) ixs)))"
  using find_exact_order [of hsh g ws p] find_partial_order [of hsh g ws p]
  by (simp only: paginate_map simp_thms)

text \<open>
  The claim as stated fails for a pattern with \<open>*\<close>: on the corpus hello, hi, hurry the
  pattern \<open>*\<close> lists hello, hurry, hi, the corpus indices 0, 2, 1. The pattern has no literal
  character, so the pre-filter never hashes and the result is that of every hash function.
\<close>

theorem result_order_counterexample:
  "find_exact (\<lambda>s. 0) (init_blooms (\<lambda>s. 0) (map lower example_words) blooms_initial)
     (WordIndex_init example_words) ''*'' = Inr [''hello'', ''hurry'', ''hi''] \<and>
   \<not> subseq [''hello'', ''hurry'', ''hi''] example_words"
  by code_simp

theorem result_order_witness:
  "(CHR ''*'' \<notin> set ''??'' \<and> list_all (\<lambda>ch. ch = CHR ''?'') ''??'') \<and>
   (\<exists>ixs. find_partial (\<lambda>s. 0) blooms_initial (WordIndex_init example_words) ''??'' =
           Inr (map ((!) example_words) ixs) \<and>
         subseq ixs [0..<length example_words])"
proof -
  have c: "(CHR ''*'' \<notin> set ''??'' \<and> list_all (\<lambda>ch. ch = CHR ''?'') ''??'') = True" by simp
  have "\<exists>ixs. find_partial (\<lambda>s. 0) blooms_initial (WordIndex_init example_words) ''??'' =
           Inr (map ((!) example_words) ixs) \<and>
         subseq ixs [0..<length example_words] \<and>
         paginate 0 (Some 1) (map ((!) example_words) ixs) =
            map ((!) example_words) (take (nat (max 0 1)) (drop (nat (max 0 0)) ixs))"
    using result_order [of "\<lambda>s. 0" blooms_initial example_words "''??''" 0 1]
    unfolding c if_True by (rule conjunct2)
  then obtain ixs where
    "find_partial (\<lambda>s. 0) blooms_initial (WordIndex_init example_words) ''??'' =
           Inr (map ((!) example_words) ixs)" "subseq ixs [0..<length example_words]"
    by (elim exE conjE)
  then show ?thesis unfolding c by (intro conjI TrueI exI)
qed

subsection \<open>Case-insensitive matching\<close>

lemma lower_char_range:
  "lower_char c = c \<or> lower_char c \<in> set ''abcdefghijklmnopqrstuvwxyz''"
proof (cases "map_of (zip ''ABCDEFGHIJKLMNOPQRSTUVWXYZ'' ''abcdefghijklmnopqrstuvwxyz'') c")
  case None
  then have "lower_char c = c" unfolding lower_char_def by (simp only: option.case)
  then show ?thesis by (rule disjI1)
next
  case (Some d)
  then have e: "lower_char c = d" unfolding lower_char_def by (simp only: option.case)
  from Some have "(c, d) \<in> set (zip ''ABCDEFGHIJKLMNOPQRSTUVWXYZ'' ''abcdefghijklmnopqrstuvwxyz'')"
    by (rule map_of_SomeD)
  then have "d \<in> set ''abcdefghijklmnopqrstuvwxyz''" by (rule set_zip_rightD)
  then show ?thesis unfolding e by (rule disjI2)
qed

lemma lower_char_question: "lower_char c = CHR ''?'' \<Longrightarrow> c = CHR ''?''"
  using lower_char_range [of c] by auto

lemma lower_char_star: "lower_char c = CHR ''*'' \<Longrightarrow> c = CHR ''*''"
  using lower_char_range [of c] by auto

lemma lower_char_wild [simp]:
  "lower_char (CHR ''?'') = CHR ''?''" "lower_char (CHR ''*'') = CHR ''*''"
  by (simp_all add: lower_char_def)

lemma fold_question: "lower_char c = lower_char d \<Longrightarrow> (c = CHR ''?'') = (d = CHR ''?'')"
  using lower_char_question [of c] lower_char_question [of d] lower_char_wild(1) by metis

lemma fold_star: "lower_char c = lower_char d \<Longrightarrow> (c = CHR ''*'') = (d = CHR ''*'')"
  using lower_char_star [of c] lower_char_star [of d] lower_char_wild(2) by metis

lemma item_eqv_simps [simp]:
  "item_eqv (Lit c) b \<longleftrightarrow> (\<exists>d. b = Lit d \<and> lower_char c = lower_char d)"
  "item_eqv AnyChar b \<longleftrightarrow> b = AnyChar"
  "item_eqv AnyStar b \<longleftrightarrow> b = AnyStar"
  by (auto simp: item_eqv_def split: rx_item.splits)

lemma match_items_cong:
  "list_all2 item_eqv xs ys \<Longrightarrow> match_items xs w = match_items ys w"
proof (induction xs w arbitrary: ys rule: match_items.induct)
  case (1 w)
  then show ?case by simp
next
  case (2 c r)
  then show ?case by (auto simp: list_all2_Cons1)
next
  case (3 c r d w)
  then show ?case by (auto simp: list_all2_Cons1)
next
  case (4 r)
  then show ?case by (auto simp: list_all2_Cons1)
next
  case (5 r d w)
  then show ?case by (auto simp: list_all2_Cons1)
next
  case (6 r)
  then show ?case by (auto simp: list_all2_Cons1)
next
  case (7 r d w)
  from "7.prems" obtain ys' where ys: "ys = AnyStar # ys'" "list_all2 item_eqv r ys'"
    by (auto simp: list_all2_Cons1)
  have a: "match_items r (d # w) = match_items ys' (d # w)" using "7.IH"(1) ys(2) by blast
  have b: "match_items (AnyStar # r) w = match_items (AnyStar # ys') w"
    using "7.IH"(2) "7.prems" ys(1) by blast
  show ?case unfolding ys(1) by (simp add: a b)
qed

lemma fold_same_list:
  "lower p' = lower p \<Longrightarrow> list_all2 (\<lambda>c d. lower_char c = lower_char d) p' p"
  unfolding lower_def
proof (induction p' arbitrary: p)
  case Nil
  then show ?case by simp
next
  case (Cons c cs)
  then show ?case by (cases p) auto
qed

lemma fold_same_items:
  assumes "list_all2 (\<lambda>c d. lower_char c = lower_char d) p' p"
  shows "list_all2 item_eqv (map (item_of allow) p') (map (item_of allow) p)"
  using assms
proof (induction rule: list_all2_induct)
  case Nil
  show ?case by simp
next
  case (Cons c cs d ds)
  have "item_eqv (item_of allow c) (item_of allow d)"
    using fold_question [OF Cons.hyps(1)] fold_star [OF Cons.hyps(1)] Cons.hyps(1)
    by (simp add: item_of_def)
  then show ?case using Cons.IH by simp
qed

lemma fold_same_star:
  assumes "list_all2 (\<lambda>c d. lower_char c = lower_char d) p' p"
  shows "(CHR ''*'' \<in> set p') = (CHR ''*'' \<in> set p)"
  using assms
proof (induction rule: list_all2_induct)
  case Nil
  show ?case by simp
next
  case (Cons c cs d ds)
  then show ?case using fold_star [OF Cons.hyps(1)] by auto
qed

lemma fold_same_allq:
  assumes "list_all2 (\<lambda>c d. lower_char c = lower_char d) p' p"
  shows "list_all (\<lambda>ch. ch = CHR ''?'') p' = list_all (\<lambda>ch. ch = CHR ''?'') p"
  using assms
proof (induction rule: list_all2_induct)
  case Nil
  show ?case by simp
next
  case (Cons c cs d ds)
  then show ?case using fold_question [OF Cons.hyps(1)] by auto
qed

lemma fold_same_min_len:
  assumes "list_all2 (\<lambda>c d. lower_char c = lower_char d) p' p"
  shows "min_len_of p' = min_len_of p"
  using assms unfolding min_len_of_def
proof (induction rule: list_all2_induct)
  case Nil
  show ?case by simp
next
  case (Cons c cs d ds)
  then show ?case using fold_star [OF Cons.hyps(1)] by auto
qed

lemma fold_same_skip:
  assumes "lower p' = lower p"
  shows "should_skip_pattern hsh g p' = should_skip_pattern hsh g p"
proof -
  have "length (lower p') = length (lower p)" using assms by simp
  then have "(p' = []) = (p = [])" by (simp only: length_lower) auto
  then show ?thesis using assms by (simp add: should_skip_pattern_def)
qed

lemma fold_same_indices:
  assumes "lower p' = lower p"
  shows "exact_indices_via_pos_index idx p' = exact_indices_via_pos_index idx p"
proof -
  have "length (lower p') = length (lower p)" using assms by simp
  then have len: "length p' = length p" by (simp only: length_lower)
  show ?thesis by (simp only: exact_indices_via_pos_index_def assms len)
qed

lemma fold_same_fullmatch:
  assumes "lower p' = lower p"
  shows "fullmatch \<lparr>rx_anchored = b, rx_items = map (item_of allow) p'\<rparr> =
         fullmatch \<lparr>rx_anchored = b, rx_items = map (item_of allow) p\<rparr>"
proof
  fix w
  show "fullmatch \<lparr>rx_anchored = b, rx_items = map (item_of allow) p'\<rparr> w =
        fullmatch \<lparr>rx_anchored = b, rx_items = map (item_of allow) p\<rparr> w"
    using match_items_cong [OF fold_same_items [OF fold_same_list [OF assms]]]
    by (simp add: fullmatch_def)
qed

lemma fold_same_search:
  assumes "lower p' = lower p"
  shows "search \<lparr>rx_anchored = False, rx_items = AnyStar # map (item_of allow) p' @ [AnyStar]\<rparr> =
         search \<lparr>rx_anchored = False, rx_items = AnyStar # map (item_of allow) p @ [AnyStar]\<rparr>"
proof -
  have "list_all2 item_eqv (AnyStar # map (item_of allow) p' @ [AnyStar])
          (AnyStar # map (item_of allow) p @ [AnyStar])"
    using fold_same_items [OF fold_same_list [OF assms], of allow]
    by (simp add: list_all2_appendI)
  then have eq: "match_items (AnyStar # map (item_of allow) p' @ [AnyStar]) =
             match_items (AnyStar # map (item_of allow) p @ [AnyStar])"
    using match_items_cong by blast
  show ?thesis
  proof (rule ext)
    fix w
    show "search \<lparr>rx_anchored = False, rx_items = AnyStar # map (item_of allow) p' @ [AnyStar]\<rparr> w =
          search \<lparr>rx_anchored = False, rx_items = AnyStar # map (item_of allow) p @ [AnyStar]\<rparr> w"
      by (simp add: search_def eq)
  qed
qed



subsection \<open>Replies to COUNT\<close>

lemma find_in_mode_total:
  assumes "sv_index sv = WordIndex_init ws"
  shows "\<exists>ms. find_in_mode sv m p = Inr ms \<and> count_in_mode sv m p = Inr (length ms)"
  using exact_agree [of "sv_hash sv" "sv_blooms sv" ws p]
        partial_agree [of "sv_hash sv" "sv_blooms sv" ws p]
  by (simp add: find_in_mode_def count_in_mode_def assms)

lemma find_multi_total:
  assumes "\<And>p. \<exists>ms. f p = Inr ms"
  shows "\<exists>ms. find_multi f tokens out = Inr ms"
proof (induction tokens arbitrary: out)
  case Nil
  show ?case by simp
next
  case (Cons p tokens)
  obtain ms where "f p = Inr ms" using assms by blast
  then show ?case using Cons.IH by simp
qed

lemma unpaginated_total:
  assumes "sv_index sv = WordIndex_init ws"
  shows "\<exists>ms. unpaginated sv rq = Inr ms"
proof -
  have f: "\<exists>ms. find_in_mode sv (rq_mode rq) p = Inr ms" for p
    using find_in_mode_total [OF assms] by blast
  show ?thesis
    using f find_multi_total [of "find_in_mode sv (rq_mode rq)", OF f]
    by (simp add: unpaginated_def)
qed



subsection \<open>The complexity guard\<close>

lemma rfind_bound: "rfind sep s = Some i \<Longrightarrow> i + length sep \<le> length s"
proof (induction s arbitrary: i)
  case Nil
  then show ?case by (simp split: if_splits)
next
  case (Cons c cs)
  show ?case
  proof (cases "rfind sep cs")
    case None
    then have "prefix sep (c # cs)" "i = 0" using Cons.prems by (auto split: if_splits)
    then show ?thesis using prefix_length_le by fastforce
  next
    case (Some j)
    then have "i = Suc j" using Cons.prems by simp
    then show ?thesis using Cons.IH [OF Some] by simp
  qed
qed

lemma rsplit_once_length: "rsplit_once sep s = (a, b) \<Longrightarrow> length a \<le> length s"
  by (auto simp: rsplit_once_def split: option.splits)

lemma parse_encoding_length: "parse_encoding rest = Inr (r, gz) \<Longrightarrow> length r \<le> length rest"
  by (auto simp: parse_encoding_def split: if_splits prod.splits dest: rsplit_once_length)

lemma parse_range_length: "parse_range rest = Inr (r, off, lim) \<Longrightarrow> length r \<le> length rest"
  by (auto simp: parse_range_def Let_def split: if_splits prod.splits dest: rsplit_once_length)

lemma parse_mode_threaded_length:
  "parse_mode_threaded dm rest = Inr (p, m) \<Longrightarrow> length p \<le> length rest"
  by (auto simp: parse_mode_threaded_def Let_def split: if_splits prod.splits dest: rsplit_once_length)

lemma parse_mode_basic_length: "parse_mode_basic rest = Inr p \<Longrightarrow> length p \<le> length rest"
  by (auto simp: parse_mode_basic_def Let_def split: if_splits prod.splits dest: rsplit_once_length)

lemma parse_threaded_length:
  assumes "parse_threaded dm cmd rest = Inr rq"
  shows "length (rq_pattern rq) \<le> length rest"
proof -
  from assms obtain r1 gz r2 off lim p m where
    1: "parse_encoding rest = Inr (r1, gz)" and 2: "parse_range r1 = Inr (r2, off, lim)"
    and 3: "parse_mode_threaded dm r2 = Inr (p, m)" and 4: "rq_pattern rq = p"
    by (auto simp: parse_threaded_def split: sum.splits prod.splits)
  show ?thesis
    using parse_encoding_length [OF 1] parse_range_length [OF 2] parse_mode_threaded_length [OF 3] 4
    by simp
qed

lemma parse_basic_length:
  assumes "parse_basic cmd rest = Inr rq"
  shows "length (rq_pattern rq) \<le> length rest"
proof -
  from assms obtain r1 gz r2 off lim p where
    1: "parse_encoding rest = Inr (r1, gz)" and 2: "parse_range r1 = Inr (r2, off, lim)"
    and 3: "parse_mode_basic r2 = Inr p" and 4: "rq_pattern rq = p"
    by (auto simp: parse_basic_def split: sum.splits prod.splits)
  show ?thesis
    using parse_encoding_length [OF 1] parse_range_length [OF 2] parse_mode_basic_length [OF 3] 4
    by simp
qed

lemma length_rstrip_crlf: "length (rstrip_crlf s) \<le> length s"
  using length_dropWhile_le [of _ "rev s"] by (simp add: rstrip_crlf_def)

lemma split_first_space_second:
  assumes "length (split_first_space s) = 2"
  shows "length (split_first_space s ! 1) \<le> length s"
proof -
  have 1: "length (tl (dropWhile (\<lambda>c. c \<noteq> CHR '' '') s)) \<le> length s"
    using length_dropWhile_le [of "\<lambda>c. c \<noteq> CHR '' ''" s] by simp
  have "CHR '' '' \<in> set s" using assms by (simp add: split_first_space_def split: if_splits)
  then show ?thesis using 1 by (simp add: split_first_space_def)
qed

lemma read_command_threaded_length:
  assumes "read_command_threaded sv raw = Inr (cmd, rest)"
  shows "length rest \<le> sv_max_pattern_length sv"
proof -
  from assms have a: "length raw \<le> sv_max_pattern_length sv"
    and b: "length (split_first_space (rstrip_crlf raw)) = 2"
    and c: "rest = split_first_space (rstrip_crlf raw) ! 1"
    by (auto simp: read_command_threaded_def Let_def split: if_splits)
  show ?thesis
    using split_first_space_second [OF b] length_rstrip_crlf [of raw] a c by simp
qed

lemma read_command_basic_length:
  assumes "read_command_basic sv raw = Inr (cmd, rest)"
  shows "length rest \<le> sv_max_pattern_length sv"
proof -
  from assms have a: "length raw \<le> sv_max_pattern_length sv"
    and b: "length (split_first_space (rstrip_crlf raw)) = 2"
    and c: "rest = split_first_space (rstrip_crlf raw) ! 1"
    by (auto simp: read_command_basic_def Let_def split: if_splits)
  show ?thesis
    using split_first_space_second [OF b] length_rstrip_crlf [of raw] a c by simp
qed

lemma parsed_threaded_length:
  assumes "parsed_threaded sv raw = Inr rq"
  shows "length (rq_pattern rq) \<le> sv_max_pattern_length sv"
proof -
  from assms obtain cmd rest where 1: "read_command_threaded sv raw = Inr (cmd, rest)"
    and 2: "parse_threaded (sv_default_mode sv) cmd rest = Inr rq"
    by (auto simp: parsed_threaded_def split: sum.splits prod.splits)
  show ?thesis using read_command_threaded_length [OF 1] parse_threaded_length [OF 2] by simp
qed

lemma parsed_basic_length:
  assumes "parsed_basic sv raw = Inr rq"
  shows "length (rq_pattern rq) \<le> sv_max_pattern_length sv"
proof -
  from assms obtain cmd rest where 1: "read_command_basic sv raw = Inr (cmd, rest)"
    and 2: "parse_basic cmd rest = Inr rq"
    by (auto simp: parsed_basic_def split: sum.splits prod.splits)
  show ?thesis using read_command_basic_length [OF 1] parse_basic_length [OF 2] by simp
qed

lemma bad_request_eq: "bad_request a = bad_request b \<longleftrightarrow> a = b"
  by (simp add: bad_request_def)

lemma ok_not_bad: "''200 OK '' @ x \<noteq> bad_request r"
  by (simp add: bad_request_def)

lemma not_found_not_bad: "not_found \<noteq> bad_request r"
  by (simp add: bad_request_def not_found_def)

lemma count_reply_not_bad: "count_reply n \<noteq> bad_request r"
  using ok_not_bad not_found_not_bad by (simp add: count_reply_def)

lemma find_reply_not_bad: "find_reply gz b64 g ms \<noteq> bad_request r"
proof -
  have "''200 OK 1'' @ x \<noteq> bad_request r" for x
    using ok_not_bad [of "''1'' @ x" r] by simp
  then show ?thesis
    using ok_not_bad not_found_not_bad by (simp add: find_reply_def Let_def)
qed

lemma batch_reply_not_bad: "batch_reply cs \<noteq> bad_request r"
  using ok_not_bad by (simp add: batch_reply_def)

lemma other_bad_requests:
  "bad_request (expected_find_multi names) \<noteq> too_complex_reply reason"
  "bad_request ''invalid batch payload'' \<noteq> too_complex_reply reason"
  by (simp_all add: too_complex_reply_def bad_request_eq expected_find_multi_def)

lemma execute_find_not_too_complex:
  "execute_find sv rq names \<noteq> Reply (too_complex_reply reason)"
proof (cases "unpaginated sv rq")
  case (Inl e)
  then show ?thesis using other_bad_requests(1) by (simp add: execute_find_def)
next
  case (Inr ms)
  have "find_reply gz b64 g xs \<noteq> too_complex_reply reason" for gz b64 g xs
    unfolding too_complex_reply_def by (rule find_reply_not_bad)
  then show ?thesis
    using Inr other_bad_requests(1) by (simp add: execute_find_def)
qed

lemma execute_threaded_not_too_complex:
  "execute_threaded sv rq \<noteq> Reply (too_complex_reply reason)"
proof -
  have 1: "batch_reply cs \<noteq> too_complex_reply reason" for cs
    unfolding too_complex_reply_def by (rule batch_reply_not_bad)
  have 2: "count_reply n \<noteq> too_complex_reply reason" for n
    unfolding too_complex_reply_def by (rule count_reply_not_bad)
  show ?thesis
    using 1 2 other_bad_requests(2) execute_find_not_too_complex
    by (simp add: execute_threaded_def split: sum.splits option.splits)
qed

lemma execute_basic_not_too_complex:
  "execute_basic sv rq \<noteq> Reply (too_complex_reply reason)"
proof -
  have 2: "count_reply n \<noteq> too_complex_reply reason" for n
    unfolding too_complex_reply_def by (rule count_reply_not_bad)
  show ?thesis
    using 2 execute_find_not_too_complex
    by (simp add: execute_basic_def split: sum.splits option.splits)
qed

lemma guard_cases:
  assumes "length (rq_pattern rq) \<le> sv_max_pattern_length sv"
    and "max_q = (if sv_pressure sv then max 1 (sv_max_questions sv div 2) else sv_max_questions sv)"
    and "max_s = (if sv_pressure sv then max 1 (sv_max_stars sv div 2) else sv_max_stars sv)"
  shows "guard sv rq =
     (if int (count_char (CHR ''?'') (rq_pattern rq)) > max_q
      then Some (too_complex_reply (reason_text (CHR ''?'') max_q))
      else if int (count_char (CHR ''*'') (rq_pattern rq)) > max_s
      then Some (too_complex_reply (reason_text (CHR ''*'') max_s))
      else None)"
proof -
  have l: "effective_complexity_limits (sv_pressure sv) (sv_max_questions sv) (sv_max_stars sv) =
             (max_q, max_s)"
    using assms(2,3) by (simp add: effective_complexity_limits_def)
  have c: "is_pattern_too_complex (rq_pattern rq) max_q max_s =
             (if int (count_char (CHR ''?'') (rq_pattern rq)) > max_q
              then (True, reason_text (CHR ''?'') max_q)
              else if int (count_char (CHR ''*'') (rq_pattern rq)) > max_s
              then (True, reason_text (CHR ''*'') max_s)
              else (False, []))"
    by (simp add: is_pattern_too_complex_def reason_text_def Let_def)
  show ?thesis
    using assms(1) by (simp add: guard_def l c too_complex_reply_def)
qed

lemma too_complex_shape:
  "''400 BAD-REQUEST pattern too complex: '' @ reason @ [newline] @ ''END'' @ [newline] =
   too_complex_reply reason"
  by (simp add: too_complex_reply_def bad_request_def end_line_def)

lemma guarded_reply:
  assumes g: "guard sv rq =
     (if Q then Some (too_complex_reply r1) else if S then Some (too_complex_reply r2) else None)"
    and e: "\<And>reason. ex \<noteq> Reply (too_complex_reply reason)"
  shows "(\<exists>reason. (case guard sv rq of Some e \<Rightarrow> Reply e | None \<Rightarrow> ex) =
                    Reply (too_complex_reply reason)) \<longleftrightarrow> Q \<or> S"
proof (cases Q)
  case True
  then have "(case guard sv rq of Some e \<Rightarrow> Reply e | None \<Rightarrow> ex) = Reply (too_complex_reply r1)"
    by (simp add: g)
  then show ?thesis using True by blast
next
  case False
  show ?thesis
  proof (cases S)
    case True
    then have "(case guard sv rq of Some e \<Rightarrow> Reply e | None \<Rightarrow> ex) = Reply (too_complex_reply r2)"
      using False by (simp add: g)
    then show ?thesis using True by blast
  next
    case nS: False
    have "(case guard sv rq of Some e \<Rightarrow> Reply e | None \<Rightarrow> ex) = ex"
      using False nS by (simp add: g)
    then show ?thesis using False nS e by simp
  qed
qed

text \<open>
  C4. A request that was parsed gets \<^verbatim>\<open>400 BAD-REQUEST pattern too complex:\<close> and a reason
  exactly when its pattern has more \<open>?\<close> than the effective limit \<open>max_q\<close> or more \<open>*\<close>
  than the effective limit \<open>max_s\<close>, on both servers. The effective limits are the
  configured ones, and under memory pressure half of each, rounded down, and at least 1.
  The pattern of a parsed request is never longer than the line, so the length guard before
  the complexity guard does not fire.
\<close>

theorem complexity_guard:
  assumes "max_q = (if sv_pressure sv then max 1 (sv_max_questions sv div 2) else sv_max_questions sv)"
    and "max_s = (if sv_pressure sv then max 1 (sv_max_stars sv div 2) else sv_max_stars sv)"
  shows "(parsed_threaded sv raw = Inr rq \<longrightarrow>
            ((\<exists>reason. handle_connection sv raw =
                 Reply (''400 BAD-REQUEST pattern too complex: '' @ reason @ [newline] @ ''END'' @ [newline]))
             \<longleftrightarrow> int (count_char (CHR ''?'') (rq_pattern rq)) > max_q \<or>
                 int (count_char (CHR ''*'') (rq_pattern rq)) > max_s)) \<and>
         (parsed_basic sv raw = Inr rq \<longrightarrow>
            ((\<exists>reason. serve_once sv raw =
                 Reply (''400 BAD-REQUEST pattern too complex: '' @ reason @ [newline] @ ''END'' @ [newline]))
             \<longleftrightarrow> int (count_char (CHR ''?'') (rq_pattern rq)) > max_q \<or>
                 int (count_char (CHR ''*'') (rq_pattern rq)) > max_s))"
  unfolding too_complex_shape
proof (intro conjI impI)
  assume p: "parsed_threaded sv raw = Inr rq"
  have h: "handle_connection sv raw =
             (case guard sv rq of Some e \<Rightarrow> Reply e | None \<Rightarrow> execute_threaded sv rq)"
    by (simp add: handle_connection_def p)
  show "(\<exists>reason. handle_connection sv raw = Reply (too_complex_reply reason))
          \<longleftrightarrow> int (count_char (CHR ''?'') (rq_pattern rq)) > max_q \<or>
              int (count_char (CHR ''*'') (rq_pattern rq)) > max_s"
    unfolding h
    by (rule guarded_reply [OF guard_cases [OF parsed_threaded_length [OF p] assms]
          execute_threaded_not_too_complex])
next
  assume p: "parsed_basic sv raw = Inr rq"
  have h: "serve_once sv raw =
             (case guard sv rq of Some e \<Rightarrow> Reply e | None \<Rightarrow> execute_basic sv rq)"
    by (simp add: serve_once_def p)
  show "(\<exists>reason. serve_once sv raw = Reply (too_complex_reply reason))
          \<longleftrightarrow> int (count_char (CHR ''?'') (rq_pattern rq)) > max_q \<or>
              int (count_char (CHR ''*'') (rq_pattern rq)) > max_s"
    unfolding h
    by (rule guarded_reply [OF guard_cases [OF parsed_basic_length [OF p] assms]
          execute_basic_not_too_complex])
qed

theorem complexity_guard_witness:
  "1 = (if sv_pressure pressed_server then max 1 (sv_max_questions pressed_server div 2)
        else sv_max_questions pressed_server) \<and>
   25 = (if sv_pressure pressed_server then max 1 (sv_max_stars pressed_server div 2)
         else sv_max_stars pressed_server) \<and>
   parsed_threaded pressed_server (''FIND h??lo'' @ [newline]) = Inr two_question_request \<and>
   int (count_char (CHR ''?'') (rq_pattern two_question_request)) > 1 \<and>
   (\<exists>reason. handle_connection pressed_server (''FIND h??lo'' @ [newline]) =
      Reply (''400 BAD-REQUEST pattern too complex: '' @ reason @ [newline] @ ''END'' @ [newline]))"
proof -
  have 1: "1 = (if sv_pressure pressed_server then max 1 (sv_max_questions pressed_server div 2)
                else sv_max_questions pressed_server)"
    by (simp add: pressed_server_def example_server_def)
  have 2: "25 = (if sv_pressure pressed_server then max 1 (sv_max_stars pressed_server div 2)
                 else sv_max_stars pressed_server)"
    by (simp add: pressed_server_def example_server_def)
  have 3: "parsed_threaded pressed_server (''FIND h??lo'' @ [newline]) = Inr two_question_request"
    by code_simp
  have 4: "int (count_char (CHR ''?'') (rq_pattern two_question_request)) > 1"
    by (simp add: two_question_request_def count_char_def)
  from complexity_guard [OF 1 2, of "''FIND h??lo'' @ [newline]" two_question_request] 3 4
  have "\<exists>reason. handle_connection pressed_server (''FIND h??lo'' @ [newline]) =
      Reply (''400 BAD-REQUEST pattern too complex: '' @ reason @ [newline] @ ''END'' @ [newline])"
    by blast
  then show ?thesis using 1 2 3 4 by blast
qed

subsection \<open>The mode suffix\<close>




subsection \<open>Pagination and compression\<close>

lemma of_char_hex_digit: "k < 16 \<Longrightarrow> of_char (hex_digit k) = 97 + k"
  by (simp add: hex_digit_def)

lemma of_char_div_16: "(of_char c :: nat) div 16 < 16"
proof -
  have "(of_char c :: nat) < 256" by simp
  then show ?thesis by (simp only: less_mult_imp_div_less [of _ 16 16, simplified])
qed

lemma hex_roundtrip: "hex_decode (hex_encode x) = x"
proof (induction x)
  case Nil
  show ?case by simp
next
  case (Cons c cs)
  have "(of_char c div 16) * 16 + of_char c mod 16 = (of_char c :: nat)" by simp
  then show ?case
    using Cons.IH by (simp add: of_char_hex_digit of_char_div_16)
qed

lemma hex_digit_not_newline: "k < 16 \<Longrightarrow> hex_digit k \<noteq> newline"
proof
  assume k: "k < 16" and "hex_digit k = newline"
  then have "of_char (hex_digit k) = (of_char newline :: nat)" by simp
  then show False using k by (simp add: of_char_hex_digit newline_def)
qed

lemma hex_no_newline: "newline \<notin> set (hex_encode x)"
proof (induction x)
  case Nil
  show ?case by simp
next
  case (Cons c cs)
  have "hex_digit (of_char c div 16) \<noteq> newline" "hex_digit (of_char c mod 16) \<noteq> newline"
    by (rule hex_digit_not_newline, simp add: of_char_div_16)
       (rule hex_digit_not_newline, simp)
  then show ?case using Cons.IH by auto
qed

lemma parsed_basic_mode: "parsed_basic sv raw = Inr rq \<Longrightarrow> rq\<lparr>rq_mode := ''exact''\<rparr> = rq"
  by (auto simp: parsed_basic_def parse_basic_def split: sum.splits prod.splits)

lemma paginate_empty:
  "int (length ms) \<le> offset \<or> lim \<le> 0 \<Longrightarrow> paginate offset (Some lim) ms = []"
  by (auto simp: paginate_def Let_def)

lemma execute_find_page:
  assumes "unpaginated sv rq = Inr ms" and "ms \<noteq> []"
  shows "execute_find sv rq names =
           Reply (find_reply (sv_gzip sv) (sv_b64encode sv) (rq_gzip rq)
                    (paginate (rq_offset rq) (rq_limit rq) ms))"
proof -
  have "split_ws (strip (rq_pattern rq)) \<noteq> []" if "rq_cmd rq = ''FIND_MULTI''"
    using assms that by (auto simp: unpaginated_def)
  then show ?thesis using assms(1) by (auto simp: execute_find_def)
qed

lemma not_found_shape: "not_found = ''404 NOT-FOUND 0'' @ [newline] @ ''END'' @ [newline]"
  by (simp add: not_found_def end_line_def)

text \<open>
  C10. A \<^verbatim>\<open>FIND\<close> or \<^verbatim>\<open>FIND_MULTI\<close> request with a \<^verbatim>\<open>RANGE\<close> whose offset is at or past the end
  of the match list \<open>ms\<close>, or whose limit is 0, gets \<^verbatim>\<open>404 NOT-FOUND 0\<close> on both servers,
  although \<open>ms\<close> is not empty: the test for no matches comes after the slice.
\<close>

theorem empty_page_is_not_found:
  assumes "rq_cmd rq = ''FIND'' \<or> rq_cmd rq = ''FIND_MULTI''"
    and "guard sv rq = None"
    and "rq_limit rq = Some lim"
    and "unpaginated sv rq = Inr ms" and "ms \<noteq> []"
    and "int (length ms) \<le> rq_offset rq \<or> lim \<le> 0"
  shows "(parsed_threaded sv raw = Inr rq \<longrightarrow>
            handle_connection sv raw = Reply (''404 NOT-FOUND 0'' @ [newline] @ ''END'' @ [newline])) \<and>
         (parsed_basic sv raw = Inr rq \<longrightarrow>
            serve_once sv raw = Reply (''404 NOT-FOUND 0'' @ [newline] @ ''END'' @ [newline]))"
proof -
  have page: "paginate (rq_offset rq) (rq_limit rq) ms = []"
    using assms(3,6) by (simp add: paginate_empty)
  have e: "execute_find sv rq names = Reply not_found" for names
    by (simp add: execute_find_page [OF assms(4,5)] page find_reply_def)
  have cmd: "rq_cmd rq \<noteq> ''BATCH''" "rq_cmd rq \<noteq> ''COUNT''" using assms(1) by auto
  show ?thesis unfolding not_found_shape [symmetric]
  proof (intro conjI impI)
    assume p: "parsed_threaded sv raw = Inr rq"
    show "handle_connection sv raw = Reply not_found"
      by (simp add: handle_connection_def p assms(2) execute_threaded_def cmd e)
  next
    assume p: "parsed_basic sv raw = Inr rq"
    show "serve_once sv raw = Reply not_found"
      by (simp add: serve_once_def p assms(2) execute_basic_def cmd parsed_basic_mode [OF p] e)
  qed
qed

theorem empty_page_is_not_found_witness:
  "(rq_cmd empty_page_request = ''FIND'' \<or> rq_cmd empty_page_request = ''FIND_MULTI'') \<and>
   guard (example_server spec_words ''exact'') empty_page_request = None \<and>
   rq_limit empty_page_request = Some 2 \<and>
   unpaginated (example_server spec_words ''exact'') empty_page_request =
     Inr [''hello'', ''hallo'', ''hxllo'', ''heLLo''] \<and>
   [''hello'', ''hallo'', ''hxllo'', ''heLLo''] \<noteq> [] \<and>
   (int (length [''hello'', ''hallo'', ''hxllo'', ''heLLo'']) \<le> rq_offset empty_page_request \<or> (2::int) \<le> 0) \<and>
   parsed_threaded (example_server spec_words ''exact'') (''FIND h?llo RANGE 9 2'' @ [newline]) =
     Inr empty_page_request \<and>
   handle_connection (example_server spec_words ''exact'') (''FIND h?llo RANGE 9 2'' @ [newline]) =
     Reply (''404 NOT-FOUND 0'' @ [newline] @ ''END'' @ [newline])"
proof -
  let ?sv = "example_server spec_words ''exact''"
  have 1: "rq_cmd empty_page_request = ''FIND'' \<or> rq_cmd empty_page_request = ''FIND_MULTI''"
    by (simp add: empty_page_request_def)
  have 2: "guard ?sv empty_page_request = None" by code_simp
  have 3: "rq_limit empty_page_request = Some 2" by (simp add: empty_page_request_def)
  have 4: "unpaginated ?sv empty_page_request = Inr [''hello'', ''hallo'', ''hxllo'', ''heLLo'']"
    by code_simp
  have 5: "[''hello'', ''hallo'', ''hxllo'', ''heLLo''] \<noteq> []" by simp
  have 6: "int (length [''hello'', ''hallo'', ''hxllo'', ''heLLo'']) \<le> rq_offset empty_page_request \<or> (2::int) \<le> 0"
    by (simp add: empty_page_request_def)
  have 7: "parsed_threaded ?sv (''FIND h?llo RANGE 9 2'' @ [newline]) = Inr empty_page_request"
    by code_simp
  from empty_page_is_not_found [OF 1 2 3 4 5 6, of "''FIND h?llo RANGE 9 2'' @ [newline]"] 7
  have "handle_connection ?sv (''FIND h?llo RANGE 9 2'' @ [newline]) =
     Reply (''404 NOT-FOUND 0'' @ [newline] @ ''END'' @ [newline])"
    by blast
  then show ?thesis using 1 2 3 4 5 6 7 by blast
qed

lemma unpaginated_gzip [simp]: "unpaginated sv (rq\<lparr>rq_gzip := b\<rparr>) = unpaginated sv rq"
  by (simp add: unpaginated_def)



end
